theory Spec2Isabelle
  imports Main
begin

section \<open>JavaScript strings and values\<close>

text \<open>
  Strings are lists of characters.  \<open>split\<close> is \<open>String.prototype.split\<close> with a
  one-character separator: it always yields at least one piece, so the empty string splits
  into one empty piece.  \<open>join\<close> is \<open>Array.prototype.join\<close>.
\<close>

fun split :: "char \<Rightarrow> string \<Rightarrow> string list" where
  "split sep [] = [[]]"
| "split sep (c # cs) =
     (if c = sep then [] # split sep cs
      else (case split sep cs of
              [] \<Rightarrow> [[c]]
            | x # xs \<Rightarrow> (c # x) # xs))"

fun join :: "string \<Rightarrow> string list \<Rightarrow> string" where
  "join sep [] = []"
| "join sep [x] = x"
| "join sep (x # y # ys) = x @ sep @ join sep (y # ys)"

text \<open>A JavaScript slot that may hold \<open>undefined\<close>, \<open>null\<close> or a proper value.\<close>

datatype 'a jsopt = Undefined | Null | Defined 'a

text \<open>
  A function object passed as listener: its identity and the value of its own property
  \<open>listener\<close> (a plain function has none, so the property reads \<open>undefined\<close>).
\<close>

datatype callback = Callback (cb_id: nat) (cb_listener: "callback jsopt")

section \<open>Error codes (constants)\<close>

definition InternalError :: nat where "InternalError = 1"
definition InvalidKey :: nat where "InvalidKey = 2"
definition InvalidRequest :: nat where "InvalidRequest = 3"
definition RequestError :: nat where "RequestError = 4"

record Error =
  message :: string
  code :: nat

section \<open>Key\<close>

text \<open>
  A Key object: its string form, its components, the registered listener (never assigned by
  the constructor, \<open>null\<close> after \<open>unlisten\<close>) and the map from concrete key string to the
  highest vts delivered to the listener.
\<close>

record Key =
  key :: string
  components :: "string list"
  listener :: "callback jsopt"
  latest :: "string \<rightharpoonup> int"

text \<open>The constructor, for a string argument and for an array argument.\<close>

definition Key_of_string :: "string \<Rightarrow> Key" where
  "Key_of_string s =
     \<lparr> key = s,
       components = (if length s = 0 then [] else split CHR ''.'' s),
       listener = Undefined,
       latest = Map.empty \<rparr>"

definition Key_of_array :: "string list \<Rightarrow> Key" where
  "Key_of_array cs =
     \<lparr> key = join ''.'' cs,
       components = cs,
       listener = Undefined,
       latest = Map.empty \<rparr>"

definition Key_lastComponent :: "Key \<Rightarrow> string option" where
  "Key_lastComponent k =
     (if length (components k) = 0 then None else Some (components k ! (length (components k) - 1)))"

definition Key_isKeyPattern :: "Key \<Rightarrow> bool" where
  "Key_isKeyPattern k \<longleftrightarrow> ''*'' \<in> set (components k) \<or> ''#'' \<in> set (components k)"

text \<open>
  The character class of \<open>/[a-z0-9_\-]/gi\<close>.  With the global flag \<open>part.match\<close> returns the
  list of all matches, one per character of the class, or \<open>null\<close> when there is none;
  \<open>keyChars_matches\<close> is \<open>(part.match(keyCharsRegex) || [])\<close>.
\<close>

definition keyChar :: "char \<Rightarrow> bool" where
  "keyChar c \<longleftrightarrow>
     c \<in> set ''abcdefghijklmnopqrstuvwxyzABCDEFGHIJKLMNOPQRSTUVWXYZ0123456789_-''"

definition keyChars_matches :: "string \<Rightarrow> string" where
  "keyChars_matches part = filter keyChar part"

text \<open>
  The loop of \<open>Key.prototype.error\<close> over the components: it returns the error of the first
  bad component, or the accumulated \<open>keyLength\<close>.
\<close>

function error_loop :: "string list \<Rightarrow> nat \<Rightarrow> int \<Rightarrow> Error + int" where
  "error_loop cs index keyLength =
     (if index < length cs then
        (let part = cs ! index in
         if part = '''' then
           Inl \<lparr> message = ''Key contains empty component'', code = InvalidKey \<rparr>
         else if part = ''*''
              \<or> (part = ''#'' \<and> int index = int (length cs) - 1)
              \<or> length (keyChars_matches part) = length part then
           error_loop cs (index + 1) (keyLength + int (length part))
         else
           Inl \<lparr> message = ''Key contains invalid character'', code = InvalidKey \<rparr>)
      else Inr keyLength)"
  by pat_completeness auto
termination
  by (relation "measure (\<lambda>(cs, index, keyLength). length cs - index)") auto

declare error_loop.simps [simp del]

definition Key_error :: "Key \<Rightarrow> Error option" where
  "Key_error k =
     (if length (components k) > 16 then
        Some \<lparr> message = ''Key contains more than 16 components'', code = InvalidKey \<rparr>
      else
        (case error_loop (components k) 0 (int (length (components k)) - 1) of
           Inl err \<Rightarrow> Some err
         | Inr keyLength \<Rightarrow>
             if keyLength > 200 then
               Some \<lparr> message = ''Key exceeds maximum length of 200 characters'',
                      code = InvalidKey \<rparr>
             else None))"

text \<open>
  The loop of \<open>Key.prototype.matches\<close>; \<open>pattern\<close> is \<open>this.components\<close> and \<open>comps\<close> is
  \<open>other.split(".")\<close>.
\<close>

function matches_loop :: "string list \<Rightarrow> string list \<Rightarrow> nat \<Rightarrow> bool" where
  "matches_loop pattern comps i =
     (if i < length pattern then
        (if pattern ! i = ''#'' then True
         else if int (length comps) - 1 < int i then False
         else if comps ! i \<noteq> pattern ! i \<and> pattern ! i \<noteq> ''*'' then False
         else matches_loop pattern comps (i + 1))
      else length pattern = length comps)"
  by pat_completeness auto
termination
  by (relation "measure (\<lambda>(pattern, comps, i). length pattern - i)") auto

declare matches_loop.simps [simp del]

definition Key_matches :: "Key \<Rightarrow> string \<Rightarrow> bool" where
  "Key_matches k other =
     (if \<not> Key_isKeyPattern k then key k = other
      else matches_loop (components k) (split CHR ''.'' other) 0)"


section \<open>Value\<close>

text \<open>
  The value held by the \<open>data\<close> field of a Value: \<open>undefined\<close>, a string, or any other
  JavaScript value (of a type \<open>'j\<close> left open).  \<open>JSON.parse\<close> is a built-in of the runtime;
  the constructor takes it as the parameter \<open>parse\<close>, which returns \<open>None\<close> where
  \<open>JSON.parse\<close> throws.
\<close>

datatype 'j jsvalue = JUndefined | JString string | JOther 'j

record Payload =
  payload_path :: "string list"
  payload_deletePath :: bool
  payload_data :: "string option"
  payload_acl :: string
  payload_creator :: string
  payload_cts :: int
  payload_vts :: int

record 'j Value =
  value_key :: string
  value_exists :: bool
  value_stable :: bool
  value_data :: "'j jsvalue"
  value_acl :: string
  value_creator :: string
  value_cts :: int
  value_vts :: int

text \<open>
  \<open>JSON.parse(undefined)\<close> throws, so a payload without data keeps \<open>undefined\<close>.
\<close>

definition Value_new :: "(string \<Rightarrow> 'j jsvalue option) \<Rightarrow> Payload \<Rightarrow> 'j Value" where
  "Value_new parse payload =
     \<lparr> value_key = join ''.'' (payload_path payload),
       value_exists = (if payload_deletePath payload then False else True),
       value_stable = True,
       value_data =
         (case payload_data payload of
            None \<Rightarrow> JUndefined
          | Some s \<Rightarrow> (case parse s of Some parsed \<Rightarrow> parsed | None \<Rightarrow> JString s)),
       value_acl = payload_acl payload,
       value_creator = payload_creator payload,
       value_cts = payload_cts payload,
       value_vts = payload_vts payload \<rparr>"

text \<open>
  \<open>JSON.parse\<close> on the three literal names, which it maps to \<open>true\<close>, \<open>false\<close> and \<open>null\<close>.
  Only these three texts are covered (every other text is treated as unparseable here, which
  \<open>JSON.parse\<close> does not do); general statements therefore keep the parser a parameter, and
  this table is used only to run the constructor on the text \<open>true\<close>.
\<close>

datatype json_literal = LitTrue | LitFalse | LitNull

definition JSON_parse_literals :: "string \<Rightarrow> json_literal jsvalue option" where
  "JSON_parse_literals s =
     (if s = ''true'' then Some (JOther LitTrue)
      else if s = ''false'' then Some (JOther LitFalse)
      else if s = ''null'' then Some (JOther LitNull)
      else None)"

section \<open>Operation\<close>

datatype kind = Pub | Sub | GetAcls | Advance | Fetch

text \<open>
  A string value: a primitive string, or a String object (\<open>new String(s)\<close>) wrapping one.
\<close>

datatype jsstring = Primitive string | StringObject string

text \<open>
  An Operation object.  \<open>oid\<close> is the identity of the object (the queue holds references and
  compares them with \<open>===\<close>); \<open>keyObj\<close> is a reference to a Key object, absent for getAcls.
  Fields a constructor does not set read \<open>undefined\<close>: \<open>None\<close>, or \<open>False\<close> for the flags
  that are only tested for truth.  \<open>data\<close> is only ever set by \<open>Key.prototype.write\<close>, to a
  string value.
\<close>

record Operation =
  oid :: nat
  kind :: kind
  keyObj :: "nat option"
  started :: bool
  cts :: "int option"
  data :: "jsstring option"
  deletePath :: bool
  aclid :: "string option"
  unsub :: bool
  vts :: "int list"
  rvtsPrime :: "int option"
  rvts :: "int option"

definition Operation_new :: "nat \<Rightarrow> kind \<Rightarrow> nat option \<Rightarrow> Operation" where
  "Operation_new i k ko =
     \<lparr> oid = i, kind = k, keyObj = ko, started = False, cts = None, data = None,
       deletePath = False, aclid = None, unsub = False, vts = [], rvtsPrime = None,
       rvts = None \<rparr>"

text \<open>
  \<open>Operation.prototype.query\<close>: the kind, and the key object when there is one.  Lodash's
  \<open>_.find(queue, query)\<close> returns the first operation whose \<open>kind\<close> is equal and whose
  \<open>keyObj\<close> is structurally equal to the query's; every Key object carries a uuid of its
  own, so two Key objects are equal exactly when they are the same object, and the model
  compares references.
\<close>

definition Operation_query :: "Operation \<Rightarrow> kind \<times> nat option" where
  "Operation_query op = (kind op, keyObj op)"

definition query_matches :: "kind \<times> nat option \<Rightarrow> Operation \<Rightarrow> bool" where
  "query_matches q op \<longleftrightarrow>
     kind op = fst q \<and> (case snd q of None \<Rightarrow> True | Some r \<Rightarrow> keyObj op = Some r)"

section \<open>App\<close>

text \<open>Closures handed to \<open>process.nextTick\<close>: by \<open>Key.deliver\<close> and by the error path of \<open>Key.listen\<close>.\<close>

datatype 'j task = DeliverTask nat "'j Value" | ListenErrorTask nat callback

text \<open>
  What user code observes.  \<open>ListenerAdded r\<close>: \<open>addListener\<close> put Key object \<open>r\<close> on the
  listener list (a registration begins).  \<open>Called r f e v\<close>: function \<open>f\<close> was called on
  behalf of Key object \<open>r\<close> with first argument \<open>e\<close> and second argument \<open>v\<close> (\<open>None\<close> is
  \<open>null\<close>).  \<open>Thrown\<close>: a task ended in an uncaught TypeError.
\<close>

datatype cb_error = NoError | ErrorValue Error | ErrorMethod

datatype 'j event =
    ListenerAdded nat
  | Called nat callback cb_error "'j Value option"
  | Thrown string
  | QueueDrained

text \<open>
  The App object together with what it shares with its surroundings: the Key objects
  (\<open>keyObjs\<close>, by reference), the allocation counter for Operation identities, the pending
  \<open>nextTick\<close> tasks, the pending five-second timers of the advance loop (by key reference)
  and the log of observable events.  The objects used as dictionaries are maps.
\<close>

record 'j App =
  lastCts :: int
  operationQueue :: "Operation list"
  queueDraining :: bool
  listeners :: "nat list"
  advanceScheduled :: "string \<rightharpoonup> bool"
  rvtsDict :: "string \<rightharpoonup> int"
  memoryDB :: "string \<rightharpoonup> 'j Value"
  vtsIndex :: "int \<rightharpoonup> string"
  acls :: "string list option"
  keyObjs :: "nat \<Rightarrow> Key"
  nextOid :: nat
  ticks :: "'j task list"
  timers :: "nat list"
  log :: "'j event list"

definition App_new :: "(nat \<Rightarrow> Key) \<Rightarrow> 'j App" where
  "App_new ks =
     \<lparr> lastCts = 0, operationQueue = [], queueDraining = False, listeners = [],
       advanceScheduled = Map.empty, rvtsDict = Map.empty, memoryDB = Map.empty,
       vtsIndex = Map.empty, acls = None, keyObjs = ks, nextOid = 0, ticks = [],
       timers = [], log = [] \<rparr>"

text \<open>\<open>x || 0\<close> on a dictionary lookup.\<close>

definition or_zero :: "int option \<Rightarrow> int" where
  "or_zero x = (case x of None \<Rightarrow> 0 | Some v \<Rightarrow> v)"

text \<open>\<open>App.prototype.nextCts\<close>; \<open>now\<close> is the value of \<open>Date.now()\<close>.\<close>

definition App_nextCts :: "int \<Rightarrow> 'j App \<Rightarrow> int \<times> 'j App" where
  "App_nextCts now app =
     (let c = max (lastCts app + 1) now in (c, app\<lparr> lastCts := c \<rparr>))"

subsection \<open>The Operation constructors\<close>

definition Operation_pub :: "int \<Rightarrow> nat \<Rightarrow> 'j App \<Rightarrow> Operation \<times> 'j App" where
  "Operation_pub now r app =
     (case App_nextCts now app of
        (c, app1) \<Rightarrow>
          ((Operation_new (nextOid app1) Pub (Some r))\<lparr> cts := Some c \<rparr>,
           app1\<lparr> nextOid := nextOid app1 + 1 \<rparr>))"

definition Operation_sub :: "nat \<Rightarrow> 'j App \<Rightarrow> Operation \<times> 'j App" where
  "Operation_sub r app =
     (Operation_new (nextOid app) Sub (Some r), app\<lparr> nextOid := nextOid app + 1 \<rparr>)"

definition Operation_getAcls :: "'j App \<Rightarrow> Operation \<times> 'j App" where
  "Operation_getAcls app =
     (Operation_new (nextOid app) GetAcls None, app\<lparr> nextOid := nextOid app + 1 \<rparr>)"

definition Operation_advance :: "nat \<Rightarrow> 'j App \<Rightarrow> Operation \<times> 'j App" where
  "Operation_advance r app =
     (Operation_new (nextOid app) Advance (Some r), app\<lparr> nextOid := nextOid app + 1 \<rparr>)"

definition Operation_fetch :: "nat \<Rightarrow> int list \<Rightarrow> int option \<Rightarrow> 'j App \<Rightarrow> Operation \<times> 'j App" where
  "Operation_fetch r vs rp app =
     ((Operation_new (nextOid app) Fetch (Some r))\<lparr> vts := vs, rvtsPrime := rp \<rparr>,
      app\<lparr> nextOid := nextOid app + 1 \<rparr>)"

subsection \<open>The operation queue\<close>

text \<open>
  \<open>Operation.prototype.start\<close> on an operation of the queue: it sets \<open>started\<close> and builds the
  request, for an advance from the rvts recorded for its key at that moment.  Handing the
  request to the transport is outside the model.
\<close>

definition Operation_start :: "'j App \<Rightarrow> Operation \<Rightarrow> Operation" where
  "Operation_start app op =
     (let op1 = op\<lparr> started := True \<rparr> in
      case (kind op1, keyObj op1) of
        (Advance, Some r) \<Rightarrow>
          op1\<lparr> rvts := Some (or_zero (rvtsDict app (''*.'' @ key (keyObjs app r)))) \<rparr>
      | _ \<Rightarrow> op1)"

definition start_in_queue :: "'j App \<Rightarrow> Operation \<Rightarrow> 'j App" where
  "start_in_queue app op =
     app\<lparr> operationQueue :=
            map (\<lambda>x. if oid x = oid op then Operation_start app x else x) (operationQueue app) \<rparr>"

text \<open>
  \<open>App.prototype.addOperation\<close>; \<open>Inl\<close> is the Error thrown while the queue is draining.
\<close>

definition App_addOperation :: "Operation \<Rightarrow> 'j App \<Rightarrow> string + 'j App" where
  "App_addOperation op app =
     (if queueDraining app then Inl ''request for new operation when queue is draining''
      else
        (let app1 = app\<lparr> operationQueue := operationQueue app @ [op] \<rparr> in
         case find (query_matches (Operation_query op)) (operationQueue app1) of
           Some next \<Rightarrow> Inr (if oid next = oid op then start_in_queue app1 op else app1)
         | None \<Rightarrow> Inr app1))"

definition App_removeOperation :: "Operation \<Rightarrow> 'j App \<Rightarrow> 'j App" where
  "App_removeOperation op app =
     (let app1 = app\<lparr> operationQueue := filter (\<lambda>x. oid x \<noteq> oid op) (operationQueue app) \<rparr>;
          app2 = (case find (query_matches (Operation_query op)) (operationQueue app1) of
                    Some next \<Rightarrow> start_in_queue app1 next
                  | None \<Rightarrow> app1)
      in if queueDraining app2 \<and> length (operationQueue app2) = 0
         then app2\<lparr> log := log app2 @ [QueueDrained], queueDraining := False \<rparr>
         else app2)"

subsection \<open>Listeners and delivery\<close>

definition App_hasListener :: "'j App \<Rightarrow> string \<Rightarrow> bool" where
  "App_hasListener app k \<longleftrightarrow>
     find (\<lambda>r. key (keyObjs app r) = k \<and> listener (keyObjs app r) \<noteq> Null) (listeners app) \<noteq> None"

text \<open>\<open>Key.prototype.deliver\<close> only schedules the task; \<open>run_task\<close> is the task's body.\<close>

definition Key_deliver :: "nat \<Rightarrow> 'j Value \<Rightarrow> 'j App \<Rightarrow> 'j App" where
  "Key_deliver r val app = app\<lparr> ticks := ticks app @ [DeliverTask r val] \<rparr>"

fun run_task :: "'j task \<Rightarrow> 'j App \<Rightarrow> 'j App" where
  "run_task (DeliverTask r val) app =
     (let self = keyObjs app r in
      if listener self \<noteq> Null then
        (let lastvts = or_zero (latest self (value_key val)) in
         if lastvts < value_vts val then
           (let app1 = app\<lparr> keyObjs := (keyObjs app)
                         (r := self\<lparr> latest := (latest self)(value_key val \<mapsto> value_vts val) \<rparr>) \<rparr>
            in case listener self of
                 Defined f \<Rightarrow> app1\<lparr> log := log app1 @ [Called r f NoError (Some val)] \<rparr>
               | _ \<Rightarrow> app1\<lparr> log := log app1 @ [Thrown ''TypeError: self.listener is not a function''] \<rparr>)
         else app)
      else app)"
| "run_task (ListenErrorTask r f) app =
     (case cb_listener f of
        Null \<Rightarrow> app
      | Undefined \<Rightarrow>
          app\<lparr> log := log app @ [Thrown ''TypeError: listener.listener is not a function''] \<rparr>
      | Defined g \<Rightarrow> app\<lparr> log := log app @ [Called r g ErrorMethod None] \<rparr>)"

text \<open>One turn of the \<open>nextTick\<close> queue: the oldest pending task runs.\<close>

definition App_tick :: "'j App \<Rightarrow> 'j App" where
  "App_tick app =
     (case ticks app of [] \<Rightarrow> app | t # ts \<Rightarrow> run_task t (app\<lparr> ticks := ts \<rparr>))"

definition App_deliverToListeners :: "'j Value \<Rightarrow> 'j App \<Rightarrow> 'j App" where
  "App_deliverToListeners val app =
     (let latestVts = (case memoryDB app (value_key val) of None \<Rightarrow> 0 | Some lv \<Rightarrow> value_vts lv) in
      if value_vts val \<le> latestVts then app
      else
        foldl (\<lambda>a r. if Key_matches (keyObjs a r) (value_key val) then Key_deliver r val a else a)
          (app\<lparr> memoryDB := (memoryDB app)(value_key val \<mapsto> val),
                vtsIndex := (vtsIndex app)(value_vts val \<mapsto> value_key val) \<rparr>)
          (listeners app))"

text \<open>
  \<open>App.prototype.startAdvance\<close>, \<open>addListener\<close> and \<open>removeListener\<close> return the state they
  leave and the Error, if any, that \<open>addOperation\<close> threw through them.  In \<open>addListener\<close>,
  \<open>enum\<close> is the order in which \<open>for (keyString in this.memoryDB)\<close> visits the keys.
\<close>

definition App_startAdvance :: "nat \<Rightarrow> 'j App \<Rightarrow> 'j App \<times> string option" where
  "App_startAdvance r app =
     (let aclKey = ''*.'' @ key (keyObjs app r);
          advanceAlreadyScheduled = (case advanceScheduled app aclKey of None \<Rightarrow> False | Some b \<Rightarrow> b)
      in if \<not> advanceAlreadyScheduled then
           (case Operation_advance r app of
              (op, app1) \<Rightarrow>
                (case App_addOperation op app1 of
                   Inl err \<Rightarrow> (app1, Some err)
                 | Inr app2 \<Rightarrow>
                     (app2\<lparr> advanceScheduled := (advanceScheduled app2)(aclKey \<mapsto> True) \<rparr>, None)))
         else (app, None))"

definition App_addListener :: "string list \<Rightarrow> nat \<Rightarrow> 'j App \<Rightarrow> 'j App \<times> string option" where
  "App_addListener enum r app =
     (if r \<in> set (listeners app) then (app, None)
      else
        (let newListener = (\<not> App_hasListener app (key (keyObjs app r)));
             app1 = app\<lparr> listeners := listeners app @ [r],
                         keyObjs := (keyObjs app)(r := (keyObjs app r)\<lparr> latest := Map.empty \<rparr>),
                         log := log app @ [ListenerAdded r] \<rparr>;
             app2 = foldl (\<lambda>a keyString.
                             case memoryDB a keyString of
                               None \<Rightarrow> a
                             | Some val \<Rightarrow>
                                 if Key_matches (keyObjs a r) keyString then
                                   (if value_exists val then Key_deliver r val a else a)
                                 else a)
                      app1 enum
         in if newListener then
              (case Operation_sub r app2 of
                 (op, app3) \<Rightarrow>
                   (case App_addOperation op app3 of
                      Inl err \<Rightarrow> (app3, Some err)
                    | Inr app4 \<Rightarrow> App_startAdvance r app4))
            else App_startAdvance r app2))"

definition App_removeListener :: "nat \<Rightarrow> 'j App \<Rightarrow> 'j App \<times> string option" where
  "App_removeListener r app =
     (let app1 = app\<lparr> listeners := filter (\<lambda>l. l \<noteq> r) (listeners app) \<rparr> in
      if \<not> App_hasListener app1 (key (keyObjs app1 r)) then
        (case Operation_sub r app1 of
           (op, app2) \<Rightarrow>
             (case App_addOperation (op\<lparr> unsub := True \<rparr>) app2 of
                Inl err \<Rightarrow> (app2, Some err)
              | Inr app3 \<Rightarrow> (app3, None)))
      else (app1, None))"

text \<open>\<open>Key.prototype.listen\<close> and \<open>unlisten\<close> on the Key object \<open>r\<close>.\<close>

definition Key_listen :: "string list \<Rightarrow> callback \<Rightarrow> nat \<Rightarrow> 'j App \<Rightarrow> 'j App \<times> string option" where
  "Key_listen enum f r app =
     (if Key_error (keyObjs app r) \<noteq> None then
        (app\<lparr> ticks := ticks app @ [ListenErrorTask r f] \<rparr>, None)
      else
        App_addListener enum r
          (app\<lparr> keyObjs := (keyObjs app)(r := (keyObjs app r)\<lparr> listener := Defined f \<rparr>) \<rparr>))"

definition Key_unlisten :: "nat \<Rightarrow> 'j App \<Rightarrow> 'j App \<times> string option" where
  "Key_unlisten r app =
     App_removeListener r
       (app\<lparr> keyObjs := (keyObjs app)(r := (keyObjs app r)\<lparr> listener := Null \<rparr>) \<rparr>)"


subsection \<open>Writing and deleting\<close>

text \<open>
  The \<open>data\<close> argument of \<open>Key.prototype.write\<close>, by what \<open>typeof\<close> and \<open>_.isString\<close> tell
  apart.  \<open>DStringObject s\<close> is a String object wrapping \<open>s\<close>, \<open>DObject\<close> any other object
  or array (\<open>'o\<close> is their type), and the numbers carried by \<open>DNumber\<close> and \<open>DBigInt\<close> play
  no role.  \<open>_.isString\<close> accepts the primitive strings and the String objects;
  \<open>string_value\<close> is the data seen as a string value, for the data \<open>_.isString\<close> accepts.
\<close>

datatype 'o jsdata =
    DUndefined | DNull | DBoolean bool | DNumber int | DBigInt int | DString string
  | DStringObject string | DObject 'o | DFunction | DSymbol

fun typeof :: "'o jsdata \<Rightarrow> string" where
  "typeof DUndefined = ''undefined''"
| "typeof DNull = ''object''"
| "typeof (DBoolean b) = ''boolean''"
| "typeof (DNumber n) = ''number''"
| "typeof (DBigInt n) = ''bigint''"
| "typeof (DString s) = ''string''"
| "typeof (DStringObject s) = ''object''"
| "typeof (DObject ob) = ''object''"
| "typeof DFunction = ''function''"
| "typeof DSymbol = ''symbol''"

fun isString :: "'o jsdata \<Rightarrow> bool" where
  "isString (DString s) = True"
| "isString (DStringObject s) = True"
| "isString d = False"

fun string_value :: "'o jsdata \<Rightarrow> jsstring option" where
  "string_value (DString s) = Some (Primitive s)"
| "string_value (DStringObject s) = Some (StringObject s)"
| "string_value d = None"

text \<open>
  What \<open>write\<close> returns: a promise already rejected, a promise that the callback of the
  enqueued operation will settle, or the Error that \<open>JSON.stringify\<close> or \<open>addOperation\<close>
  threw.  \<open>JSON.stringify\<close> is the parameter \<open>stringify\<close>: it throws (\<open>Inl\<close>, on a cyclic
  object for one), returns \<open>undefined\<close> (\<open>Inr None\<close>, when a \<open>toJSON\<close> method does) or returns
  a string.
\<close>

datatype write_result = Rejected Error | Pending nat | Raised string

definition Key_write ::
  "int \<Rightarrow> ('o jsdata \<Rightarrow> string + string option) \<Rightarrow> 'o jsdata \<Rightarrow> string option \<Rightarrow> nat
   \<Rightarrow> 'j App \<Rightarrow> write_result \<times> 'j App" where
  "Key_write now stringify d acl_id r app =
     (case Operation_pub now r app of
        (op, app1) \<Rightarrow>
          (case (if isString d then Inr (op\<lparr> data := string_value d \<rparr>)
                 else if typeof d = ''object'' then
                   (case stringify d of
                      Inl thrown \<Rightarrow> Inl (Raised thrown)
                    | Inr res \<Rightarrow> Inr (op\<lparr> data := map_option Primitive res \<rparr>))
                 else if d \<noteq> DUndefined then
                   Inl (Rejected \<lparr> message = ''Value for data is not string or object type.'',
                                    code = RequestError \<rparr>)
                 else Inr op) of
             Inl res \<Rightarrow> (res, app1)
           | Inr op1 \<Rightarrow>
               (let op2 = (case acl_id of Some a \<Rightarrow> op1\<lparr> aclid := Some a \<rparr> | None \<Rightarrow> op1) in
                case App_addOperation op2 app1 of
                  Inl thrown \<Rightarrow> (Raised thrown, app1)
                | Inr app2 \<Rightarrow> (Pending (oid op2), app2))))"

definition Key_delete :: "int \<Rightarrow> nat \<Rightarrow> 'j App \<Rightarrow> write_result \<times> 'j App" where
  "Key_delete now r app =
     (case Operation_pub now r app of
        (op, app1) \<Rightarrow>
          (case App_addOperation (op\<lparr> deletePath := True \<rparr>) app1 of
             Inl thrown \<Rightarrow> (Raised thrown, app1)
           | Inr app2 \<Rightarrow> (Pending (oid op), app2)))"

subsection \<open>Responses\<close>

record 'j Response =
  response_error :: "Error option"
  response_acls :: "string list option"
  response_vts :: "int list"
  response_maxvts :: "int option"
  response_values :: "'j Value list"

text \<open>
  The \<open>_.forEach\<close> over \<open>response.vts\<close> in the advance branch.  A vts whose key has no entry
  in \<open>memoryDB\<close> makes \<open>value.vts\<close> throw a TypeError, which the surrounding \<open>try\<close> catches:
  the result \<open>None\<close>.
\<close>

fun advance_loop :: "int list \<Rightarrow> int list \<Rightarrow> 'j App \<Rightarrow> 'j App \<times> int list option" where
  "advance_loop [] vtsToFetch app = (app, Some vtsToFetch)"
| "advance_loop (v # vs) vtsToFetch app =
     (case vtsIndex app v of
        None \<Rightarrow> advance_loop vs (vtsToFetch @ [v]) app
      | Some keyForVts \<Rightarrow>
          (case memoryDB app keyForVts of
             None \<Rightarrow> (app, None)
           | Some val \<Rightarrow>
               if value_vts val < v then advance_loop vs (vtsToFetch @ [v]) app
               else advance_loop vs vtsToFetch (App_deliverToListeners val app)))"

text \<open>
  \<open>_.reduce(response.vts, function (max, val) { return (val>max) ? val : max; }, this.rvts)\<close>;
  a comparison with \<open>undefined\<close> is false.
\<close>

definition reduce_max :: "int option \<Rightarrow> int list \<Rightarrow> int option" where
  "reduce_max init vs =
     foldl (\<lambda>mx val. case mx of None \<Rightarrow> None
                      | Some m \<Rightarrow> if val > m then Some val else Some m) init vs"

text \<open>\<open>response.maxvts || _.reduce(...)\<close>: a maxvts of 0 is falsy.\<close>

definition compute_rvtsPrime :: "'j Response \<Rightarrow> int option \<Rightarrow> int option" where
  "compute_rvtsPrime response rv =
     (case response_maxvts response of
        Some m \<Rightarrow> if m \<noteq> 0 then Some m else reduce_max rv (response_vts response)
      | None \<Rightarrow> reduce_max rv (response_vts response))"

definition process_advance :: "Operation \<Rightarrow> 'j Response \<Rightarrow> 'j App \<Rightarrow> 'j App" where
  "process_advance op response app =
     (case advance_loop (response_vts response) [] app of
        (app1, None) \<Rightarrow> app1
      | (app1, Some vtsToFetch) \<Rightarrow>
          (let rp = compute_rvtsPrime response (rvts op) in
           case keyObj op of
             None \<Rightarrow> app1
           | Some r \<Rightarrow>
               if length vtsToFetch > 0 then
                 (case Operation_fetch r vtsToFetch rp app1 of
                    (f, app2) \<Rightarrow>
                      (case App_addOperation f app2 of Inl thrown \<Rightarrow> app2 | Inr app3 \<Rightarrow> app3))
               else
                 app1\<lparr> rvtsDict := (rvtsDict app1)(''*.'' @ key (keyObjs app1 r) := rp),
                       timers := timers app1 @ [r] \<rparr>))"

definition process_fetch :: "Operation \<Rightarrow> 'j Response \<Rightarrow> 'j App \<Rightarrow> 'j App" where
  "process_fetch op response app =
     (let app1 = foldl (\<lambda>a val. App_deliverToListeners val a) app (response_values response) in
      case keyObj op of
        None \<Rightarrow> app1
      | Some r \<Rightarrow>
          (let k = key (keyObjs app1 r);
               app2 = app1\<lparr> rvtsDict := (rvtsDict app1)(''*.'' @ k := rvtsPrime op) \<rparr>
           in if App_hasListener app2 k then
                (case Operation_advance r app2 of
                   (a, app3) \<Rightarrow>
                     (case App_addOperation a app3 of Inl thrown \<Rightarrow> app3 | Inr app4 \<Rightarrow> app4))
              else app2\<lparr> advanceScheduled := (advanceScheduled app2)(''*.'' @ k \<mapsto> False) \<rparr>))"

text \<open>
  \<open>Operation.prototype.processResponse\<close>.  Both try blocks catch what \<open>addOperation\<close> throws.
\<close>

definition Operation_processResponse ::
  "Operation \<Rightarrow> 'j Response \<Rightarrow> Error option \<Rightarrow> 'j App \<Rightarrow> 'j App" where
  "Operation_processResponse op response err app =
     (if err \<noteq> None \<or> response_error response \<noteq> None then app
      else case kind op of
             Pub \<Rightarrow> app
           | Sub \<Rightarrow> app
           | GetAcls \<Rightarrow> app\<lparr> acls := response_acls response \<rparr>
           | Advance \<Rightarrow> process_advance op response app
           | Fetch \<Rightarrow> process_fetch op response app)"

text \<open>
  The callback the transport calls with the response to a sent request:
  \<open>processResponse\<close>, then \<open>finish\<close>, which removes the operation from the queue.  The
  operation is found in the queue by its identity.
\<close>

definition Operation_respond :: "nat \<Rightarrow> 'j Response \<Rightarrow> Error option \<Rightarrow> 'j App \<Rightarrow> 'j App" where
  "Operation_respond i response err app =
     (case find (\<lambda>x. oid x = i) (operationQueue app) of
        None \<Rightarrow> app
      | Some op \<Rightarrow> App_removeOperation op (Operation_processResponse op response err app))"

text \<open>
  The timer set by the advance branch when nothing is to fetch: five seconds later the
  oldest pending one runs.
\<close>

definition App_advanceTimer :: "'j App \<Rightarrow> 'j App \<times> string option" where
  "App_advanceTimer app =
     (case timers app of
        [] \<Rightarrow> (app, None)
      | r # ts \<Rightarrow>
          (let app1 = app\<lparr> timers := ts \<rparr>; k = key (keyObjs app1 r) in
           if App_hasListener app1 k then
             (case Operation_advance r app1 of
                (a, app2) \<Rightarrow>
                  (case App_addOperation a app2 of
                     Inl thrown \<Rightarrow> (app2, Some thrown)
                   | Inr app3 \<Rightarrow> (app3, None)))
           else (app1\<lparr> advanceScheduled := (advanceScheduled app1)(''*.'' @ k \<mapsto> False) \<rparr>, None)))"

text \<open>\<open>App.prototype.drainOperationQueue\<close>, as \<open>unauth\<close> calls it.\<close>

definition App_drainOperationQueue :: "'j App \<Rightarrow> 'j App" where
  "App_drainOperationQueue app =
     (let app1 = app\<lparr> queueDraining := True \<rparr> in
      if length (operationQueue app1) = 0
      then app1\<lparr> log := log app1 @ [QueueDrained], queueDraining := False \<rparr>
      else app1)"

section \<open>Runs of the client\<close>

text \<open>
  What can happen to an App, one event at a time: calls of the public functions by user
  code, a turn of the \<open>nextTick\<close> queue, a \<open>data\<close> message from the server, the response to
  the request of a queued operation, a timer of the advance loop, and the start of
  draining.  A run applies a list of events to a new App.
\<close>

datatype ('j, 'o) api =
    Listen nat callback "string list"
  | Unlisten nat
  | Write int "'o jsdata \<Rightarrow> string + string option" "'o jsdata" "string option" nat
  | Delete int nat
  | Tick
  | Data "'j Value"
  | Respond nat "'j Response" "Error option"
  | Timer
  | Drain

fun step :: "'j App \<Rightarrow> ('j, 'o) api \<Rightarrow> 'j App" where
  "step app (Listen r f enum) = fst (Key_listen enum f r app)"
| "step app (Unlisten r) = fst (Key_unlisten r app)"
| "step app (Write now stringify d acl_id r) = snd (Key_write now stringify d acl_id r app)"
| "step app (Delete now r) = snd (Key_delete now r app)"
| "step app Tick = App_tick app"
| "step app (Data val) = App_deliverToListeners val app"
| "step app (Respond i response err) = Operation_respond i response err app"
| "step app Timer = fst (App_advanceTimer app)"
| "step app Drain = App_drainOperationQueue app"

definition run :: "(nat \<Rightarrow> Key) \<Rightarrow> ('j, 'o) api list \<Rightarrow> 'j App" where
  "run ks evs = foldl step (App_new ks) evs"

text \<open>
  The vts values that the callback of Key object \<open>r\<close> has been given for the concrete key
  \<open>k\<close> since \<open>r\<close> was last registered, oldest first.
\<close>

definition observe :: "nat \<Rightarrow> string \<Rightarrow> int list \<Rightarrow> 'j event \<Rightarrow> int list" where
  "observe r k acc ev =
     (case ev of
        ListenerAdded r' \<Rightarrow> if r' = r then [] else acc
      | Called r' f e v \<Rightarrow>
          (case v of
             Some val \<Rightarrow> if r' = r \<and> value_key val = k then acc @ [value_vts val] else acc
           | None \<Rightarrow> acc)
      | Thrown m \<Rightarrow> acc
      | QueueDrained \<Rightarrow> acc)"

definition observed :: "'j event list \<Rightarrow> nat \<Rightarrow> string \<Rightarrow> int list" where
  "observed evs r k = foldl (observe r k) [] evs"

section \<open>Notions used to state the properties\<close>

text \<open>
  Component-wise matching as the specification words it: \<open>#\<close> matches all that remains,
  \<open>*\<close> one component of any value, a literal only itself, and a pattern used up must have
  used up the key.
\<close>

fun matches_spec :: "string list \<Rightarrow> string list \<Rightarrow> bool" where
  "matches_spec [] cs = (cs = [])"
| "matches_spec (p # ps) cs =
     (if p = ''#'' then True
      else (case cs of
              [] \<Rightarrow> False
            | c # cs' \<Rightarrow> (p = ''*'' \<or> p = c) \<and> matches_spec ps cs'))"

text \<open>
  Component \<open>i\<close> has a character outside the class, and is neither \<open>*\<close> nor a final \<open>#\<close>.
\<close>

definition invalid_char_component :: "string list \<Rightarrow> nat \<Rightarrow> bool" where
  "invalid_char_component cs i \<longleftrightarrow>
     (\<exists>c\<in>set (cs ! i). \<not> keyChar c) \<and> cs ! i \<noteq> ''*'' \<and> \<not> (cs ! i = ''#'' \<and> i + 1 = length cs)"

definition good_component :: "string list \<Rightarrow> nat \<Rightarrow> bool" where
  "good_component cs i \<longleftrightarrow>
     cs ! i \<noteq> [] \<and>
     (cs ! i = ''*'' \<or> (cs ! i = ''#'' \<and> i + 1 = length cs) \<or> (\<forall>c\<in>set (cs ! i). keyChar c))"

text \<open>A key of 16 components and 200 characters, used as an example.\<close>

definition key200 :: string where
  "key200 = ''abcdefghijkl.abcdefghijkl.abcdefghijkl.abcdefghijkl.abcdefghijkl.abcdefghijkl.abcdefghijkl.abcdefghijkl.abcdefghijkl.abcdefghijkl.abcdefghijkl.abcdefghijkl.abcdefghijkl.abcdefghijkl.abcdefghijkl.mnopq''"

text \<open>
  The queue a successful \<open>addOperation\<close> leaves: the operation is appended, and it alone
  may have been started.
\<close>

definition add_result :: "Operation \<Rightarrow> 'j App \<Rightarrow> Operation list" where
  "add_result op app =
     (case find (query_matches (Operation_query op)) (operationQueue app @ [op]) of
        Some next \<Rightarrow>
          if oid next = oid op
          then map (\<lambda>x. if oid x = oid op then Operation_start app x else x)
                 (operationQueue app @ [op])
          else operationQueue app @ [op]
      | None \<Rightarrow> operationQueue app @ [op])"

text \<open>
  The shape the five constructors give an operation: only getAcls has no key object.
\<close>

definition wf_op :: "Operation \<Rightarrow> bool" where
  "wf_op op \<longleftrightarrow> (kind op = GetAcls) = (keyObj op = None)"

text \<open>
  The operations of one signature, in queue order: the first is started and no other is.
\<close>

fun head_started :: "Operation list \<Rightarrow> bool" where
  "head_started [] = True"
| "head_started (x # xs) = (started x \<and> (\<forall>y\<in>set xs. \<not> started y))"

definition with_signature :: "kind \<times> nat option \<Rightarrow> Operation list \<Rightarrow> Operation list" where
  "with_signature s q = filter (\<lambda>x. Operation_query x = s) q"

definition queue_inv :: "nat \<Rightarrow> Operation list \<Rightarrow> bool" where
  "queue_inv n q \<longleftrightarrow>
     (\<forall>x\<in>set q. oid x < n \<and> wf_op x) \<and> distinct (map oid q)
     \<and> (\<forall>s. head_started (with_signature s q))"

text \<open>The queue \<open>removeOperation\<close> leaves.\<close>

definition remove_result :: "Operation \<Rightarrow> 'j App \<Rightarrow> Operation list" where
  "remove_result op app =
     (let q1 = filter (\<lambda>x. oid x \<noteq> oid op) (operationQueue app) in
      case find (query_matches (Operation_query op)) q1 of
        Some next \<Rightarrow> map (\<lambda>x. if oid x = oid next then Operation_start app x else x) q1
      | None \<Rightarrow> q1)"

text \<open>Starting the operation with a given identity.\<close>

definition start_oid :: "'j App \<Rightarrow> nat \<Rightarrow> Operation list \<Rightarrow> Operation list" where
  "start_oid app i q = map (\<lambda>x. if oid x = i then Operation_start app x else x) q"

text \<open>
  \<open>only_sync a b\<close>: state \<open>b\<close> differs from \<open>a\<close> at most in \<open>memoryDB\<close>, \<open>vtsIndex\<close> and the
  pending tasks.
\<close>

definition only_sync :: "'j App \<Rightarrow> 'j App \<Rightarrow> bool" where
  "only_sync a b \<longleftrightarrow>
     b = a\<lparr> memoryDB := memoryDB b, vtsIndex := vtsIndex b, ticks := ticks b \<rparr>"

text \<open>The values \<open>addListener\<close> hands to the new listener, in the order of the enumeration.\<close>

definition primed :: "'j App \<Rightarrow> nat \<Rightarrow> string list \<Rightarrow> 'j Value list" where
  "primed app r enum =
     concat (map (\<lambda>k. case memoryDB app k of
                         None \<Rightarrow> []
                       | Some val \<Rightarrow>
                           if Key_matches (keyObjs app r) k \<and> value_exists val then [val] else [])
               enum)"

definition queue_ok :: "'j App \<Rightarrow> bool" where
  "queue_ok app \<longleftrightarrow> queue_inv (nextOid app) (operationQueue app)"

text \<open>
  The invariant behind monotonic delivery: for every Key object and concrete key, the vts
  values observed since the last registration increase strictly and none exceeds the
  recorded highest-delivered vts.
\<close>

definition delivery_inv :: "'j App \<Rightarrow> bool" where
  "delivery_inv app \<longleftrightarrow>
     (\<forall>r k. sorted_wrt (<) (observed (log app) r k)
          \<and> (\<forall>x\<in>set (observed (log app) r k).
                 \<exists>m. latest (keyObjs app r) k = Some m \<and> x \<le> m))"

text \<open>
  The cache is consistent when every entry of \<open>memoryDB\<close> is stored under its own key and
  every vts of \<open>vtsIndex\<close> leads to an entry; \<open>sync_inv\<close> adds that the entry's vts is at
  least the indexed one.  A returned vts needs a fetch when it is absent from \<open>vtsIndex\<close>
  or the cached value is older.
\<close>

definition cache_consistent :: "'j App \<Rightarrow> bool" where
  "cache_consistent app \<longleftrightarrow>
     (\<forall>k val. memoryDB app k = Some val \<longrightarrow> value_key val = k)
     \<and> (\<forall>v k. vtsIndex app v = Some k \<longrightarrow> memoryDB app k \<noteq> None)"

definition sync_inv :: "'j App \<Rightarrow> bool" where
  "sync_inv app \<longleftrightarrow>
     (\<forall>k val. memoryDB app k = Some val \<longrightarrow> value_key val = k)
     \<and> (\<forall>v k. vtsIndex app v = Some k \<longrightarrow>
            (\<exists>val. memoryDB app k = Some val \<and> v \<le> value_vts val))"

definition needs_fetch :: "'j App \<Rightarrow> int \<Rightarrow> bool" where
  "needs_fetch app v \<longleftrightarrow>
     (case vtsIndex app v of
        None \<Rightarrow> True
      | Some k \<Rightarrow> (case memoryDB app k of None \<Rightarrow> False | Some val \<Rightarrow> value_vts val < v))"

text \<open>
  The fetch list of a response, in closed form, and the rvtsPrime of an operation issued
  with rvts \<open>rv\<close>, as a number: the response's maxvts when it is there and not 0, else the
  largest of \<open>rv\<close> and the returned vts.
\<close>

definition fetch_list :: "'j App \<Rightarrow> 'j Response \<Rightarrow> int list" where
  "fetch_list app response = filter (needs_fetch app) (response_vts response)"

definition expected_rvtsPrime :: "'j Response \<Rightarrow> int \<Rightarrow> int" where
  "expected_rvtsPrime response rv =
     (case response_maxvts response of
        Some m \<Rightarrow> if m \<noteq> 0 then m else Max (insert rv (set (response_vts response)))
      | None \<Rightarrow> Max (insert rv (set (response_vts response))))"

text \<open>
  Key objects used in examples: reference 0 is the pattern \<open>a.*\<close>, 1 the concrete key
  \<open>a.b\<close>, 2 the invalid key \<open>a..c\<close>, 3 a second Key object for \<open>a.b\<close>, and every
  other reference the root key.
\<close>

definition example_keys :: "nat \<Rightarrow> Key" where
  "example_keys r =
     Key_of_string
       (if r = 0 then ''a.*'' else if r = 1 then ''a.b'' else if r = 2 then ''a..c''
        else if r = 3 then ''a.b'' else [])"

text \<open>A payload whose data is the JSON text \<open>true\<close>, and one whose data is not JSON.\<close>

definition example_payload :: "string \<Rightarrow> Payload" where
  "example_payload s =
     \<lparr> payload_path = [''a'', ''b''], payload_deletePath = False, payload_data = Some s,
       payload_acl = ''$publicCreate'', payload_creator = ''u1'', payload_cts = 1000,
       payload_vts = 5 \<rparr>"

text \<open>
  A run used as an example: two writes through Key object 1, one through Key object 3 (the
  same key string, another object), and then the response to the first write.
\<close>

definition example_writes :: "(unit, unit) api list" where
  "example_writes =
     [Write 1000 (\<lambda>d. Inr (Some ''{}'')) (DString ''x'') None 1,
      Write 1000 (\<lambda>d. Inr (Some ''{}'')) (DString ''y'') None 1,
      Write 1000 (\<lambda>d. Inr (Some ''{}'')) (DString ''z'') None 3]"

definition happy :: "unit Response" where
  "happy = \<lparr> response_error = None, response_acls = None, response_vts = [],
             response_maxvts = None, response_values = [] \<rparr>"

text \<open>
  A value for the key \<open>a.b\<close> with a given vts, and a run in which a listener on the pattern
  \<open>a.*\<close> is sent the versions 5, 3 and 7 of it.
\<close>

definition example_value :: "bool \<Rightarrow> int \<Rightarrow> unit Value" where
  "example_value ex v =
     \<lparr> value_key = ''a.b'', value_exists = ex, value_stable = True, value_data = JString ''x'',
       value_acl = ''$publicCreate'', value_creator = ''u1'', value_cts = 1000, value_vts = v \<rparr>"

definition example_deliveries :: "(unit, unit) api list" where
  "example_deliveries =
     [Listen 0 (Callback 7 Undefined) [],
      Data (example_value True 5), Tick,
      Data (example_value True 3), Tick,
      Data (example_value True 7), Tick]"

text \<open>
  An advance response, and runs in which a listener on \<open>a.*\<close> has been registered (the
  queue then holds its sub operation and its advance operation, with identities 0 and 1),
  without and with draining begun.
\<close>

definition advance_response :: "int list \<Rightarrow> int option \<Rightarrow> unit Response" where
  "advance_response vs mx =
     \<lparr> response_error = None, response_acls = None, response_vts = vs,
       response_maxvts = mx, response_values = [] \<rparr>"

definition example_listening :: "(unit, unit) api list" where
  "example_listening = [Listen 0 (Callback 7 Undefined) []]"

definition example_draining :: "(unit, unit) api list" where
  "example_draining = [Listen 0 (Callback 7 Undefined) [], Drain]"



section \<open>Strings\<close>

lemma split_not_Nil: "split sep s \<noteq> []"
  by (induction s) (auto split: list.splits)

lemma join_Cons_Cons: "join sep ((c # x) # xs) = c # join sep (x # xs)"
  by (cases xs) auto

lemma join_Nil_Cons: "xs \<noteq> [] \<Longrightarrow> join sep ([] # xs) = sep @ join sep xs"
  by (cases xs) auto

lemma join_split: "join [sep] (split sep s) = s"
proof (induction s)
  case Nil
  show ?case by simp
next
  case (Cons c s)
  obtain x xs where sp: "split sep s = x # xs"
    using split_not_Nil [of sep s] by (cases "split sep s") auto
  with Cons show ?case
    by (auto simp: join_Cons_Cons join_Nil_Cons)
qed

lemma length_join:
  "int (length (join ''.'' cs)) =
     (if cs = [] then 0 else sum_list (map (\<lambda>c. int (length c)) cs) + int (length cs) - 1)"
  by (induction "''.''" cs rule: join.induct) auto

text \<open>Both constructors keep \<open>key\<close> the joined form of \<open>components\<close>.\<close>

lemma Key_of_string_key: "join ''.'' (components (Key_of_string s)) = key (Key_of_string s)"
  using join_split [of "CHR ''.''" s] by (simp add: Key_of_string_def)

lemma Key_of_array_key: "join ''.'' (components (Key_of_array cs)) = key (Key_of_array cs)"
  by (simp add: Key_of_array_def)

section \<open>Pattern matching\<close>

lemma matches_loop_spec:
  "i \<le> length ps \<Longrightarrow> i \<le> length cs \<Longrightarrow>
   matches_loop ps cs i = matches_spec (drop i ps) (drop i cs)"
proof (induction ps cs i rule: matches_loop.induct)
  case (1 pattern comps i)
  show ?case
  proof (cases "i < length pattern")
    case False
    with "1.prems" have "drop i pattern = []"
      and "(drop i comps = []) = (length pattern = length comps)"
      by auto
    with False show ?thesis
      by (simp add: matches_loop.simps [of pattern comps i])
  next
    case True
    then have dp: "drop i pattern = pattern ! i # drop (Suc i) pattern"
      by (simp add: Cons_nth_drop_Suc)
    show ?thesis
    proof (cases "pattern ! i = ''#''")
      case True
      with \<open>i < length pattern\<close> dp show ?thesis
        by (simp add: matches_loop.simps [of pattern comps i])
    next
      case notHash: False
      show ?thesis
      proof (cases "i < length comps")
        case False
        with "1.prems" have "drop i comps = []" by simp
        with False notHash True dp show ?thesis
          by (simp add: matches_loop.simps [of pattern comps i])
      next
        case lt: True
        then have dc: "drop i comps = comps ! i # drop (Suc i) comps"
          by (simp add: Cons_nth_drop_Suc)
        show ?thesis
        proof (cases "comps ! i \<noteq> pattern ! i \<and> pattern ! i \<noteq> ''*''")
          case True
          with lt notHash \<open>i < length pattern\<close> dp dc show ?thesis
            by (auto simp: matches_loop.simps [of pattern comps i])
        next
          case False
          have "matches_loop pattern comps (i + 1) =
                matches_spec (drop (i + 1) pattern) (drop (i + 1) comps)"
            using "1.IH" [OF \<open>i < length pattern\<close> notHash _ False] lt \<open>i < length pattern\<close>
            by simp
          with False lt notHash \<open>i < length pattern\<close> dp dc show ?thesis
            by (auto simp: matches_loop.simps [of pattern comps i])
        qed
      qed
    qed
  qed
qed

lemma matches_spec_index:
  "matches_spec ps cs \<longleftrightarrow>
     (\<exists>i<length ps. ps ! i = ''#'' \<and> i \<le> length cs \<and> (\<forall>j<i. ps ! j = ''*'' \<or> ps ! j = cs ! j))
   \<or> (''#'' \<notin> set ps \<and> length cs = length ps \<and> (\<forall>j<length ps. ps ! j = ''*'' \<or> ps ! j = cs ! j))"
proof (induction ps arbitrary: cs)
  case Nil
  then show ?case by auto
next
  case (Cons p ps)
  show ?case
  proof (cases "p = ''#''")
    case True
    then show ?thesis by auto
  next
    case False
    show ?thesis
    proof (cases cs)
      case Nil
      with False show ?thesis by (auto simp: Ex_less_Suc2)
    next
      case (Cons c cs')
      with False Cons.IH [of cs'] show ?thesis
        by (simp add: All_less_Suc2 Ex_less_Suc2) blast
    qed
  qed
qed

lemma Key_matches_pattern:
  "Key_isKeyPattern k \<Longrightarrow>
   Key_matches k other = matches_spec (components k) (split CHR ''.'' other)"
  using matches_loop_spec [of 0 "components k" "split CHR ''.'' other"]
  by (simp add: Key_matches_def)

text \<open>
  On the root key string the component-wise algorithm and the code part.  The root key has
  no components, so the algorithm lets neither \<open>*\<close> nor \<open>*.#\<close> match it; \<open>Key.matches\<close>
  splits the string it is given, which for the empty string gives one empty component, and
  returns true for both.
\<close>

theorem Key_matches_root_not_componentwise:
  "components (Key_of_string '''') = []
   \<and> Key_isKeyPattern (Key_of_string ''*'')
   \<and> Key_matches (Key_of_string ''*'') ''''
   \<and> \<not> matches_spec (components (Key_of_string ''*'')) (components (Key_of_string ''''))
   \<and> Key_isKeyPattern (Key_of_string ''*.#'')
   \<and> Key_matches (Key_of_string ''*.#'') ''''
   \<and> \<not> matches_spec (components (Key_of_string ''*.#'')) (components (Key_of_string ''''))"
  by code_simp

text \<open>
  C1, as the code has it.  \<open>Key.matches\<close> is the component-wise algorithm run on the
  concrete key string \<open>other\<close> split at the periods: these are the components of the key
  \<open>other\<close> when it is not empty, and one empty component for the empty (root) string.
  A key without wildcards matches exactly its own string.  A pattern matches \<open>other\<close>
  exactly when either some position \<open>i\<close> of the pattern holds \<open>#\<close>, the split string has at
  least the \<open>i\<close> components before it and each of them is accepted (by \<open>*\<close>, or by the equal
  literal), or the pattern has no \<open>#\<close>, the split string has exactly as many components as
  the pattern and each is accepted.  So \<open>foo.bar.#\<close> matches \<open>foo.bar\<close>, and \<open>foo.*.baz\<close>
  matches \<open>foo.X.baz\<close> but neither \<open>foo.bar\<close> nor \<open>foo.bar.baz.qux\<close>.
\<close>

theorem Key_matches_componentwise:
  "(\<not> Key_isKeyPattern k \<longrightarrow> Key_matches k other = (key k = other))
   \<and> (Key_isKeyPattern k \<longrightarrow>
        Key_matches k other = matches_spec (components k) (split CHR ''.'' other))
   \<and> (Key_isKeyPattern k \<and> other \<noteq> [] \<longrightarrow>
        Key_matches k other
          = matches_spec (components k) (components (Key_of_string other)))
   \<and> (Key_isKeyPattern k \<longrightarrow>
        Key_matches k '''' = matches_spec (components k) [''''])
   \<and> (Key_isKeyPattern k \<longrightarrow>
        Key_matches k other =
          ((\<exists>i<length (components k).
               components k ! i = ''#'' \<and> i \<le> length (split CHR ''.'' other)
               \<and> (\<forall>j<i. components k ! j = ''*''
                        \<or> components k ! j = split CHR ''.'' other ! j))
           \<or> (''#'' \<notin> set (components k)
               \<and> length (split CHR ''.'' other) = length (components k)
               \<and> (\<forall>j<length (components k).
                      components k ! j = ''*''
                      \<or> components k ! j = split CHR ''.'' other ! j))))
   \<and> Key_matches (Key_of_string ''foo.bar.#'') ''foo.bar''
   \<and> Key_matches (Key_of_string ''foo.bar.#'') ''foo.bar.baz''
   \<and> \<not> Key_matches (Key_of_string ''foo.bar.#'') ''foo''
   \<and> Key_matches (Key_of_string ''foo.*.baz'') ''foo.X.baz''
   \<and> \<not> Key_matches (Key_of_string ''foo.*.baz'') ''foo.bar''
   \<and> \<not> Key_matches (Key_of_string ''foo.*.baz'') ''foo.bar.baz.qux''"
proof -
  have plain: "\<not> Key_isKeyPattern k \<longrightarrow> Key_matches k other = (key k = other)"
    by (simp add: Key_matches_def)
  have spec: "Key_isKeyPattern k \<longrightarrow>
      Key_matches k other = matches_spec (components k) (split CHR ''.'' other)"
    by (simp add: Key_matches_pattern)
  have nonroot: "Key_isKeyPattern k \<and> other \<noteq> [] \<longrightarrow>
      Key_matches k other = matches_spec (components k) (components (Key_of_string other))"
    by (simp add: Key_matches_pattern Key_of_string_def)
  have root: "Key_isKeyPattern k \<longrightarrow>
      Key_matches k '''' = matches_spec (components k) ['''']"
    using Key_matches_pattern [of k "''''"] by simp
  have index: "Key_isKeyPattern k \<longrightarrow>
      Key_matches k other =
        ((\<exists>i<length (components k).
             components k ! i = ''#'' \<and> i \<le> length (split CHR ''.'' other)
             \<and> (\<forall>j<i. components k ! j = ''*''
                      \<or> components k ! j = split CHR ''.'' other ! j))
         \<or> (''#'' \<notin> set (components k)
             \<and> length (split CHR ''.'' other) = length (components k)
             \<and> (\<forall>j<length (components k).
                    components k ! j = ''*''
                    \<or> components k ! j = split CHR ''.'' other ! j)))"
    using matches_spec_index [of "components k" "split CHR ''.'' other"]
    by (simp add: Key_matches_pattern)
  have e1: "Key_matches (Key_of_string ''foo.bar.#'') ''foo.bar''" by code_simp
  have e2: "Key_matches (Key_of_string ''foo.bar.#'') ''foo.bar.baz''" by code_simp
  have e3: "\<not> Key_matches (Key_of_string ''foo.bar.#'') ''foo''" by code_simp
  have e4: "Key_matches (Key_of_string ''foo.*.baz'') ''foo.X.baz''" by code_simp
  have e5: "\<not> Key_matches (Key_of_string ''foo.*.baz'') ''foo.bar''" by code_simp
  have e6: "\<not> Key_matches (Key_of_string ''foo.*.baz'') ''foo.bar.baz.qux''" by code_simp
  from plain spec nonroot root index e1 e2 e3 e4 e5 e6 show ?thesis by blast
qed

theorem Key_matches_componentwise_witness:
  "Key_isKeyPattern (Key_of_string ''a.*.c.#'')
   \<and> Key_matches (Key_of_string ''a.*.c.#'') ''a.b.c.d.e''
   \<and> matches_spec [''a'', ''*'', ''c'', ''#''] [''a'', ''b'', ''c'', ''d'', ''e'']
   \<and> \<not> Key_isKeyPattern (Key_of_string ''a.b'')
   \<and> Key_matches (Key_of_string ''a.b'') ''a.b''
   \<and> \<not> Key_matches (Key_of_string ''a.b'') ''a.b.c''"
proof -
  have p: "Key_isKeyPattern (Key_of_string ''a.*.c.#'')" by code_simp
  have c: "components (Key_of_string ''a.*.c.#'') = [''a'', ''*'', ''c'', ''#'']" by code_simp
  have s: "split CHR ''.'' ''a.b.c.d.e'' = [''a'', ''b'', ''c'', ''d'', ''e'']" by code_simp
  have m: "matches_spec [''a'', ''*'', ''c'', ''#''] [''a'', ''b'', ''c'', ''d'', ''e'']" by simp
  have np: "\<not> Key_isKeyPattern (Key_of_string ''a.b'')" by code_simp
  have k: "key (Key_of_string ''a.b'') = ''a.b''" by (simp add: Key_of_string_def)
  from Key_matches_componentwise [of "Key_of_string ''a.*.c.#''" "''a.b.c.d.e''"] p c s m
  have "Key_matches (Key_of_string ''a.*.c.#'') ''a.b.c.d.e''" by simp
  moreover from Key_matches_componentwise [of "Key_of_string ''a.b''" "''a.b''"] np k
  have "Key_matches (Key_of_string ''a.b'') ''a.b''" by simp
  moreover from Key_matches_componentwise [of "Key_of_string ''a.b''" "''a.b.c''"] np k
  have "\<not> Key_matches (Key_of_string ''a.b'') ''a.b.c''" by simp
  ultimately show ?thesis using p m np by blast
qed

text \<open>
  C9.  On the empty (root) key string the single-component patterns \<open>*\<close> and \<open>#\<close> both
  match: the empty string splits into one empty component, which \<open>*\<close> accepts, although the
  root key itself has no components.
\<close>

theorem Key_matches_root_wildcard:
  "Key_matches (Key_of_string ''*'') ''''
   \<and> Key_matches (Key_of_string ''#'') ''''
   \<and> components (Key_of_string ''*'') = [''*'']
   \<and> components (Key_of_string ''#'') = [''#'']
   \<and> split CHR ''.'' '''' = ['''']
   \<and> components (Key_of_string '''') = []"
proof -
  have "Key_matches (Key_of_string ''*'') ''''" by code_simp
  moreover have "Key_matches (Key_of_string ''#'') ''''" by code_simp
  ultimately show ?thesis by (simp add: Key_of_string_def)
qed

theorem Key_matches_root_wildcard_witness:
  "Key_matches (Key_of_string ''*'') (key (Key_of_string ''''))"
  using Key_matches_root_wildcard by (simp add: Key_of_string_def)

section \<open>Key validation\<close>

lemma keyChars_matches_all:
  "length (keyChars_matches part) = length part \<longleftrightarrow> (\<forall>c\<in>set part. keyChar c)"
proof -
  have "length (filter keyChar part) + length (filter (\<lambda>c. \<not> keyChar c) part) = length part"
    by (rule sum_length_filter_compl)
  then have "length (filter keyChar part) = length part
      \<longleftrightarrow> filter (\<lambda>c. \<not> keyChar c) part = []"
    by auto
  then show ?thesis
    by (simp add: keyChars_matches_def filter_empty_conv)
qed

lemma error_loop_step:
  "index < length cs \<Longrightarrow>
   error_loop cs index kl =
     (if cs ! index = [] then
        Inl \<lparr> message = ''Key contains empty component'', code = InvalidKey \<rparr>
      else if good_component cs index then
        error_loop cs (index + 1) (kl + int (length (cs ! index)))
      else Inl \<lparr> message = ''Key contains invalid character'', code = InvalidKey \<rparr>)"
  by (subst error_loop.simps)
     (auto simp: good_component_def keyChars_matches_all Let_def)

lemma error_loop_done: "\<not> index < length cs \<Longrightarrow> error_loop cs index kl = Inr kl"
  by (subst error_loop.simps) simp

lemma error_loop_Inr:
  "error_loop cs index kl = Inr n \<Longrightarrow>
   n = kl + sum_list (map (\<lambda>c. int (length c)) (drop index cs))
   \<and> (\<forall>j. index \<le> j \<and> j < length cs \<longrightarrow> good_component cs j)"
proof (induction cs index kl rule: error_loop.induct)
  case (1 cs index keyLength)
  show ?case
  proof (cases "index < length cs")
    case False
    with "1.prems" show ?thesis by (auto simp: error_loop_done)
  next
    case True
    from "1.prems" True have ne: "cs ! index \<noteq> []" and good: "good_component cs index"
      and rec: "error_loop cs (index + 1) (keyLength + int (length (cs ! index))) = Inr n"
      by (auto simp: error_loop_step split: if_splits)
    have cond: "cs ! index = ''*'' \<or> cs ! index = ''#'' \<and> int index = int (length cs) - 1
        \<or> length (keyChars_matches (cs ! index)) = length (cs ! index)"
      using good by (auto simp: good_component_def keyChars_matches_all)
    have IH: "n = keyLength + int (length (cs ! index))
                + sum_list (map (\<lambda>c. int (length c)) (drop (index + 1) cs))
       \<and> (\<forall>j. index + 1 \<le> j \<and> j < length cs \<longrightarrow> good_component cs j)"
      using "1.IH" [OF True refl ne cond rec] .
    have dp: "drop index cs = cs ! index # drop (Suc index) cs"
      using True by (simp add: Cons_nth_drop_Suc)
    have "\<forall>j. index \<le> j \<and> j < length cs \<longrightarrow> good_component cs j"
    proof (intro allI impI)
      fix j assume "index \<le> j \<and> j < length cs"
      then have "j = index \<or> (index + 1 \<le> j \<and> j < length cs)" by auto
      then show "good_component cs j" using good IH by blast
    qed
    with IH dp show ?thesis by simp
  qed
qed

lemma error_loop_Inl:
  "error_loop cs index kl = Inl e \<Longrightarrow>
   code e = InvalidKey \<and> (\<exists>j. index \<le> j \<and> j < length cs \<and> \<not> good_component cs j)"
proof (induction cs index kl rule: error_loop.induct)
  case (1 cs index keyLength)
  show ?case
  proof (cases "index < length cs")
    case False
    with "1.prems" show ?thesis by (simp add: error_loop_done)
  next
    case True
    show ?thesis
    proof (cases "cs ! index \<noteq> [] \<and> good_component cs index")
      case False
      with "1.prems" True have "code e = InvalidKey"
        by (auto simp: error_loop_step split: if_splits)
      moreover from False have "\<not> good_component cs index"
        by (auto simp: good_component_def)
      ultimately show ?thesis using True by auto
    next
      case good: True
      with "1.prems" True
      have rec: "error_loop cs (index + 1) (keyLength + int (length (cs ! index))) = Inl e"
        by (auto simp: error_loop_step split: if_splits)
      have ne: "cs ! index \<noteq> []" using good by simp
      have cond: "cs ! index = ''*'' \<or> cs ! index = ''#'' \<and> int index = int (length cs) - 1
          \<or> length (keyChars_matches (cs ! index)) = length (cs ! index)"
        using good by (auto simp: good_component_def keyChars_matches_all)
      have "code e = InvalidKey
          \<and> (\<exists>j. index + 1 \<le> j \<and> j < length cs \<and> \<not> good_component cs j)"
        using "1.IH" [OF True refl ne cond rec] .
      then obtain j where "code e = InvalidKey" "index + 1 \<le> j" "j < length cs"
          "\<not> good_component cs j"
        by blast
      then have "index \<le> j \<and> j < length cs \<and> \<not> good_component cs j" by simp
      with \<open>code e = InvalidKey\<close> show ?thesis by blast
    qed
  qed
qed

lemma not_good_component:
  "i < length cs \<Longrightarrow>
   \<not> good_component cs i \<longleftrightarrow> cs ! i = [] \<or> invalid_char_component cs i"
  by (auto simp: good_component_def invalid_char_component_def)

lemma Key_error_code: "Key_error k = Some e \<Longrightarrow> code e = InvalidKey"
  by (auto simp: Key_error_def split: if_splits sum.splits dest: error_loop_Inl)

lemma Key_error_iff:
  "Key_error k \<noteq> None \<longleftrightarrow>
     16 < length (components k)
   \<or> [] \<in> set (components k)
   \<or> (\<exists>i<length (components k). invalid_char_component (components k) i)
   \<or> 200 < length (join ''.'' (components k))"
proof (cases "16 < length (components k)")
  case True
  then show ?thesis by (simp add: Key_error_def)
next
  case small: False
  let ?cs = "components k"
  show ?thesis
  proof (cases "error_loop ?cs 0 (int (length ?cs) - 1)")
    case (Inl e)
    from error_loop_Inl [OF Inl] obtain j where j: "j < length ?cs" "\<not> good_component ?cs j"
      by blast
    then have "?cs ! j = [] \<or> invalid_char_component ?cs j"
      by (simp add: not_good_component)
    with j have "[] \<in> set ?cs \<or> (\<exists>i<length ?cs. invalid_char_component ?cs i)"
      by (metis nth_mem)
    with Inl small show ?thesis by (auto simp: Key_error_def)
  next
    case (Inr n)
    from error_loop_Inr [OF Inr]
    have n: "n = int (length ?cs) - 1 + sum_list (map (\<lambda>c. int (length c)) ?cs)"
      and good: "\<forall>j<length ?cs. good_component ?cs j"
      by auto
    have noempty: "[] \<notin> set ?cs"
    proof
      assume "[] \<in> set ?cs"
      then obtain j where "j < length ?cs" "?cs ! j = []" by (auto simp: in_set_conv_nth)
      with good show False by (auto simp: good_component_def)
    qed
    have nobad: "\<not> (\<exists>i<length ?cs. invalid_char_component ?cs i)"
      using good not_good_component [of _ ?cs] by blast
    have len: "200 < n \<longleftrightarrow> 200 < length (join ''.'' ?cs)"
    proof (cases "?cs = []")
      case True
      with n show ?thesis by simp
    next
      case False
      with n length_join [of ?cs] show ?thesis by auto
    qed
    from Inr small noempty nobad len show ?thesis
      by (auto simp: Key_error_def)
  qed
qed

text \<open>
  C4.  \<open>Key.error\<close> returns an error exactly when the key has more than 16 components, an
  empty component, a component with a character outside \<open>[A-Za-z0-9_-]\<close> that is neither
  \<open>*\<close> nor a final \<open>#\<close>, or a joined length above 200; the error's code is always
  InvalidKey.  The root key is valid; a key of 16 components and 200 characters with no
  empty or ill-formed component is valid; 17 components, or 201 characters, are invalid.
\<close>

theorem Key_error_InvalidKey:
  "(Key_error k \<noteq> None \<longleftrightarrow>
       16 < length (components k)
     \<or> [] \<in> set (components k)
     \<or> (\<exists>i<length (components k). invalid_char_component (components k) i)
     \<or> 200 < length (join ''.'' (components k)))
   \<and> (\<forall>e. Key_error k = Some e \<longrightarrow> code e = InvalidKey)
   \<and> Key_error (Key_of_string '''') = None
   \<and> Key_error (Key_of_array []) = None
   \<and> (length (components k) = 16 \<and> length (join ''.'' (components k)) = 200
        \<and> [] \<notin> set (components k)
        \<and> (\<forall>i<length (components k). \<not> invalid_char_component (components k) i)
      \<longrightarrow> Key_error k = None)
   \<and> (length (components k) = 17 \<longrightarrow> Key_error k \<noteq> None)
   \<and> (length (join ''.'' (components k)) = 201 \<longrightarrow> Key_error k \<noteq> None)"
proof -
  note iff = Key_error_iff [of k]
  have root1: "Key_error (Key_of_string '''') = None" by code_simp
  have root2: "Key_error (Key_of_array []) = None" by code_simp
  have code: "\<forall>e. Key_error k = Some e \<longrightarrow> code e = InvalidKey"
    by (simp add: Key_error_code)
  have ok: "length (components k) = 16 \<and> length (join ''.'' (components k)) = 200
        \<and> [] \<notin> set (components k)
        \<and> (\<forall>i<length (components k). \<not> invalid_char_component (components k) i)
      \<longrightarrow> Key_error k = None"
    using iff by auto
  have many: "length (components k) = 17 \<longrightarrow> Key_error k \<noteq> None"
    using iff by simp
  have long: "length (join ''.'' (components k)) = 201 \<longrightarrow> Key_error k \<noteq> None"
    using iff by simp
  from iff code root1 root2 ok many long show ?thesis by blast
qed

theorem Key_error_InvalidKey_witness:
  "length (components (Key_of_string ''a.b.c.d.e.f.g.h.i.j.k.l.m.n.o.p.q'')) = 17
   \<and> (\<exists>e. Key_error (Key_of_string ''a.b.c.d.e.f.g.h.i.j.k.l.m.n.o.p.q'') = Some e
          \<and> code e = InvalidKey)
   \<and> Key_error (Key_of_string ''a.#.c'') \<noteq> None
   \<and> length (components (Key_of_string key200)) = 16
   \<and> length (join ''.'' (components (Key_of_string key200))) = 200
   \<and> Key_error (Key_of_string key200) = None
   \<and> length (join ''.'' (components (Key_of_string (key200 @ ''r'')))) = 201
   \<and> Key_error (Key_of_string (key200 @ ''r'')) \<noteq> None"
proof -
  let ?k = "Key_of_string ''a.b.c.d.e.f.g.h.i.j.k.l.m.n.o.p.q''"
  have n: "length (components ?k) = 17" by code_simp
  from Key_error_InvalidKey [of ?k] n have "Key_error ?k \<noteq> None" by blast
  then obtain e where e: "Key_error ?k = Some e" by auto
  with Key_error_InvalidKey [of ?k] have c: "code e = InvalidKey" by blast
  have "invalid_char_component (components (Key_of_string ''a.#.c'')) 1"
    by code_simp
  moreover have "length (components (Key_of_string ''a.#.c'')) = 3" by code_simp
  ultimately have hash: "Key_error (Key_of_string ''a.#.c'') \<noteq> None"
    using Key_error_InvalidKey [of "Key_of_string ''a.#.c''"] by auto
  let ?m = "Key_of_string key200"
  have m16: "length (components ?m) = 16" unfolding key200_def by code_simp
  have m200: "length (join ''.'' (components ?m)) = 200" unfolding key200_def by code_simp
  have mval: "Key_error ?m = None" unfolding key200_def by code_simp
  have parts: "[] \<notin> set (components ?m)
      \<and> (\<forall>i<length (components ?m). \<not> invalid_char_component (components ?m) i)"
    using mval Key_error_iff [of ?m] by auto
  from Key_error_InvalidKey [of ?m] m16 m200 parts have ok: "Key_error ?m = None" by blast
  let ?l = "Key_of_string (key200 @ ''r'')"
  have l201: "length (join ''.'' (components ?l)) = 201" unfolding key200_def by code_simp
  from Key_error_InvalidKey [of ?l] l201 have long: "Key_error ?l \<noteq> None" by blast
  from n e c hash m16 m200 ok l201 long show ?thesis by blast
qed

section \<open>Creation timestamps\<close>

text \<open>
  C10.  \<open>nextCts\<close> returns \<open>max(lastCts+1, Date.now())\<close> and stores it as \<open>lastCts\<close>, so a
  call returns more than the call before it on the same App, whatever the two readings
  \<open>now\<close> and \<open>now'\<close> of the clock are (the second may be the same or earlier); hence the
  \<open>cts\<close> of two pub operations created one after the other increase strictly.
\<close>

theorem App_nextCts_strictly_increasing:
  "fst (App_nextCts now app) = max (lastCts app + 1) now
   \<and> lastCts (snd (App_nextCts now app)) = fst (App_nextCts now app)
   \<and> lastCts app < fst (App_nextCts now app)
   \<and> fst (App_nextCts now app) < fst (App_nextCts now' (snd (App_nextCts now app)))
   \<and> (\<exists>c c'. cts (fst (Operation_pub now r app)) = Some c
         \<and> cts (fst (Operation_pub now' r' (snd (Operation_pub now r app)))) = Some c'
         \<and> c < c')"
  by (auto simp: App_nextCts_def Operation_pub_def Operation_new_def Let_def)

theorem App_nextCts_strictly_increasing_witness:
  "fst (App_nextCts 1000 (App_new example_keys :: unit App)) = 1000
   \<and> fst (App_nextCts 1000 (snd (App_nextCts 1000 (App_new example_keys :: unit App)))) = 1001
   \<and> fst (App_nextCts 5 (snd (App_nextCts 1000 (App_new example_keys :: unit App)))) = 1001"
  using App_nextCts_strictly_increasing [of 1000 "App_new example_keys :: unit App" 5]
  by (simp add: App_nextCts_def App_new_def Let_def)

section \<open>The data of a Value\<close>

theorem Value_new_data_not_verbatim:
  "value_data (Value_new JSON_parse_literals (example_payload ''true'')) = JOther LitTrue
   \<and> value_data (Value_new JSON_parse_literals (example_payload ''true'')) \<noteq> JString ''true''"
  by (simp add: Value_new_def example_payload_def JSON_parse_literals_def)

text \<open>
  C6, as the code has it.  The constructor hands the payload's data string to \<open>JSON.parse\<close>:
  when the string parses, the \<open>data\<close> field is the parsed value and not the string; when it
  does not parse, the field is the string itself, so nothing is lost on a parse failure.
  A payload without data gives \<open>undefined\<close>.  No other field depends on the data.
\<close>

theorem Value_new_data:
  "(payload_data payload = Some s \<and> parse s = None
      \<longrightarrow> value_data (Value_new parse payload) = JString s)
   \<and> (payload_data payload = Some s \<and> parse s = Some parsed
      \<longrightarrow> value_data (Value_new parse payload) = parsed)
   \<and> (payload_data payload = None \<longrightarrow> value_data (Value_new parse payload) = JUndefined)
   \<and> value_key (Value_new parse payload) = join ''.'' (payload_path payload)
   \<and> value_exists (Value_new parse payload) = (\<not> payload_deletePath payload)
   \<and> value_vts (Value_new parse payload) = payload_vts payload"
  by (simp add: Value_new_def)

theorem Value_new_data_witness:
  "payload_data (example_payload ''{oops'') = Some ''{oops''
   \<and> JSON_parse_literals ''{oops'' = None
   \<and> value_data (Value_new JSON_parse_literals (example_payload ''{oops'')) = JString ''{oops''
   \<and> JSON_parse_literals ''null'' = Some (JOther LitNull)
   \<and> value_data (Value_new JSON_parse_literals (example_payload ''null'')) = JOther LitNull"
proof -
  have d1: "payload_data (example_payload ''{oops'') = Some ''{oops''"
    by (simp add: example_payload_def)
  have p1: "JSON_parse_literals ''{oops'' = None"
    by (simp add: JSON_parse_literals_def)
  have d2: "payload_data (example_payload ''null'') = Some ''null''"
    by (simp add: example_payload_def)
  have p2: "JSON_parse_literals ''null'' = Some (JOther LitNull)"
    by (simp add: JSON_parse_literals_def)
  from Value_new_data [of "example_payload ''{oops''" "''{oops''" JSON_parse_literals] d1 p1
  have "value_data (Value_new JSON_parse_literals (example_payload ''{oops'')) = JString ''{oops''"
    by blast
  moreover
  from Value_new_data [of "example_payload ''null''" "''null''" JSON_parse_literals "JOther LitNull"]
    d2 p2
  have "value_data (Value_new JSON_parse_literals (example_payload ''null'')) = JOther LitNull"
    by blast
  ultimately show ?thesis using d1 p1 p2 by blast
qed

section \<open>Listening on an invalid key\<close>

text \<open>
  C7, on the code.  The key \<open>a..c\<close> (reference 2) is invalid and the listener is a plain
  function.  \<open>listen\<close> registers nothing and enqueues nothing, and schedules one task; the
  task reads the property \<open>listener\<close> of the function, which is \<open>undefined\<close> and so passes
  the test against \<open>null\<close>, calls it, and ends in a TypeError.  The supplied function is
  never called.
\<close>

theorem Key_listen_invalid_key_never_calls_back:
  "Key_error (keyObjs (App_new example_keys :: unit App) 2) \<noteq> None
   \<and> listeners (fst (Key_listen [] (Callback 7 Undefined) 2 (App_new example_keys :: unit App))) = []
   \<and> operationQueue (fst (Key_listen [] (Callback 7 Undefined) 2 (App_new example_keys :: unit App))) = []
   \<and> ticks (fst (Key_listen [] (Callback 7 Undefined) 2 (App_new example_keys :: unit App)))
       = [ListenErrorTask 2 (Callback 7 Undefined)]
   \<and> log (App_tick (fst (Key_listen [] (Callback 7 Undefined) 2 (App_new example_keys :: unit App))))
       = [Thrown ''TypeError: listener.listener is not a function'']"
proof -
  have e: "Key_error (example_keys 2) \<noteq> None" by code_simp
  then show ?thesis
    by (simp add: Key_listen_def App_new_def App_tick_def)
qed

text \<open>
  For every invalid key and every function passed to \<open>listen\<close>: nothing is registered or
  enqueued, and the scheduled task never passes the key's error to anything; a call, if
  there is one, goes to the value of the function's property \<open>listener\<close> and passes the
  method \<open>error\<close> itself.
\<close>

lemma Key_listen_invalid_key_task:
  assumes "Key_error (keyObjs app r) \<noteq> None"
  shows "fst (Key_listen enum f r app) = app\<lparr> ticks := ticks app @ [ListenErrorTask r f] \<rparr>"
    and "log (run_task (ListenErrorTask r f) app) =
           log app @ (case cb_listener f of
                        Null \<Rightarrow> []
                      | Undefined \<Rightarrow> [Thrown ''TypeError: listener.listener is not a function'']
                      | Defined g \<Rightarrow> [Called r g ErrorMethod None])"
  using assms by (auto simp: Key_listen_def split: jsopt.splits)

section \<open>The operation queue: basic facts\<close>

lemma Operation_start_fields [simp]:
  "oid (Operation_start app x) = oid x"
  "kind (Operation_start app x) = kind x"
  "keyObj (Operation_start app x) = keyObj x"
  "started (Operation_start app x) = True"
  "cts (Operation_start app x) = cts x"
  "data (Operation_start app x) = data x"
  "deletePath (Operation_start app x) = deletePath x"
  "aclid (Operation_start app x) = aclid x"
  "unsub (Operation_start app x) = unsub x"
  "vts (Operation_start app x) = vts x"
  "rvtsPrime (Operation_start app x) = rvtsPrime x"
  by (auto simp: Operation_start_def Let_def split: kind.splits option.splits)

lemma Operation_start_query [simp]:
  "Operation_query (Operation_start app x) = Operation_query x"
  by (simp add: Operation_query_def)

lemma Operation_start_cong:
  "rvtsDict a = rvtsDict b \<Longrightarrow> (\<And>r. key (keyObjs a r) = key (keyObjs b r)) \<Longrightarrow>
   Operation_start a x = Operation_start b x"
  by (simp add: Operation_start_def Let_def split: kind.splits option.splits)

lemma Operation_start_queue_update [simp]:
  "Operation_start (app\<lparr> operationQueue := q \<rparr>) = Operation_start app"
  by (rule ext, rule Operation_start_cong) simp_all

lemma App_addOperation_eq:
  "App_addOperation op app =
     (if queueDraining app then Inl ''request for new operation when queue is draining''
      else Inr (app\<lparr> operationQueue := add_result op app \<rparr>))"
  by (simp add: App_addOperation_def add_result_def start_in_queue_def Let_def
           split: option.splits)

lemma add_result_length [simp]: "length (add_result op app) = Suc (length (operationQueue app))"
  by (simp add: add_result_def split: option.splits)

lemma add_result_last:
  "oid (last (add_result op app)) = oid op"
  "kind (last (add_result op app)) = kind op"
  "keyObj (last (add_result op app)) = keyObj op"
  "data (last (add_result op app)) = data op"
  "cts (last (add_result op app)) = cts op"
  "aclid (last (add_result op app)) = aclid op"
  "deletePath (last (add_result op app)) = deletePath op"
  "vts (last (add_result op app)) = vts op"
  "rvtsPrime (last (add_result op app)) = rvtsPrime op"
  by (simp_all add: add_result_def last_map split: option.splits)

section \<open>Writing\<close>

theorem Key_write_changes_state:
  "fst (Key_write 1000 (\<lambda>d. Inr (Some ''{}'')) (DNumber 5 :: unit jsdata) None 1
          (App_new example_keys :: unit App))
     = Rejected \<lparr> message = ''Value for data is not string or object type.'', code = 4 \<rparr>
   \<and> snd (Key_write 1000 (\<lambda>d. Inr (Some ''{}'')) (DNumber 5 :: unit jsdata) None 1
          (App_new example_keys :: unit App))
     \<noteq> App_new example_keys
   \<and> lastCts (App_new example_keys :: unit App) = 0
   \<and> lastCts (snd (Key_write 1000 (\<lambda>d. Inr (Some ''{}'')) (DNumber 5 :: unit jsdata) None 1
          (App_new example_keys :: unit App))) = 1000
   \<and> fst (Key_write 1000 (\<lambda>d. Inr (Some ''{}'')) (DUndefined :: unit jsdata) None 1
          (App_new example_keys :: unit App)) = Pending 0
   \<and> length (operationQueue (snd (Key_write 1000 (\<lambda>d. Inr (Some ''{}'')) (DUndefined :: unit jsdata) None 1
          (App_new example_keys :: unit App)))) = 1"
proof -
  let ?app = "App_new example_keys :: unit App"
  let ?w = "Key_write 1000 (\<lambda>d. Inr (Some ''{}'')) (DNumber 5 :: unit jsdata) None 1 ?app"
  have r: "fst ?w = Rejected \<lparr> message = ''Value for data is not string or object type.'', code = 4 \<rparr>"
    by (simp add: Key_write_def Operation_pub_def App_nextCts_def Let_def RequestError_def)
  have l0: "lastCts ?app = 0" by (simp add: App_new_def)
  have l1: "lastCts (snd ?w) = 1000"
    by (simp add: Key_write_def Operation_pub_def App_nextCts_def Let_def App_new_def)
  from l0 l1 have ne: "snd ?w \<noteq> ?app" by auto
  let ?u = "Key_write 1000 (\<lambda>d. Inr (Some ''{}'')) (DUndefined :: unit jsdata) None 1 ?app"
  have q: "\<not> queueDraining ?app" by (simp add: App_new_def)
  have u1: "fst ?u = Pending 0"
    using q
    by (simp add: Key_write_def Operation_pub_def App_nextCts_def Let_def App_addOperation_eq
          Operation_new_def App_new_def)
  have u2: "length (operationQueue (snd ?u)) = 1"
    using q
    by (simp add: Key_write_def Operation_pub_def App_nextCts_def Let_def App_addOperation_eq
          Operation_new_def App_new_def)
  from r ne l0 l1 u1 u2 show ?thesis by blast
qed

text \<open>
  C8, as the code has it.  \<open>write\<close> creates the pub operation first, which takes a cts from
  \<open>nextCts\<close>.  For data that is not \<open>undefined\<close> and whose \<open>typeof\<close> is neither string nor
  object (a boolean, a number, a bigint, a function, a symbol) it then returns a promise
  rejected with code RequestError (4) and enqueues nothing: the state is as before but for
  \<open>lastCts\<close>, advanced by the one \<open>nextCts\<close> call, and the discarded Operation object.  For
  all other data the operation is enqueued, unless \<open>JSON.stringify\<close> throws, or
  \<open>addOperation\<close> does because the queue is draining: then \<open>write\<close> throws, with the same
  change of \<open>lastCts\<close>.  The enqueued operation holds a primitive string or a String object
  as it is, any other data of type object (\<open>null\<close> included) as \<open>JSON.stringify\<close> returns
  it, and no data when the data is \<open>undefined\<close>.
\<close>

theorem Key_write_data:
  "(typeof d \<noteq> ''string'' \<and> typeof d \<noteq> ''object'' \<and> d \<noteq> DUndefined \<longrightarrow>
      Key_write now stringify d acl_id r app =
        (Rejected \<lparr> message = ''Value for data is not string or object type.'',
                    code = RequestError \<rparr>,
         app\<lparr> lastCts := max (lastCts app + 1) now, nextOid := nextOid app + 1 \<rparr>)
      \<and> RequestError = 4
      \<and> operationQueue (snd (Key_write now stringify d acl_id r app)) = operationQueue app)
   \<and> (\<not> queueDraining app \<longrightarrow>
        fst (Key_write now stringify (DString s) acl_id r app) = Pending (nextOid app)
        \<and> length (operationQueue (snd (Key_write now stringify (DString s) acl_id r app)))
            = length (operationQueue app) + 1
        \<and> oid (last (operationQueue (snd (Key_write now stringify (DString s) acl_id r app))))
            = nextOid app
        \<and> data (last (operationQueue (snd (Key_write now stringify (DString s) acl_id r app))))
            = Some (Primitive s))
   \<and> (\<not> queueDraining app \<longrightarrow>
        fst (Key_write now stringify (DStringObject s) acl_id r app) = Pending (nextOid app)
        \<and> length (operationQueue (snd (Key_write now stringify (DStringObject s) acl_id r app)))
            = length (operationQueue app) + 1
        \<and> oid (last (operationQueue
              (snd (Key_write now stringify (DStringObject s) acl_id r app))))
            = nextOid app
        \<and> data (last (operationQueue
              (snd (Key_write now stringify (DStringObject s) acl_id r app))))
            = Some (StringObject s))
   \<and> (\<not> queueDraining app \<and> typeof d = ''object'' \<and> \<not> isString d
        \<and> stringify d = Inr res \<longrightarrow>
        fst (Key_write now stringify d acl_id r app) = Pending (nextOid app)
        \<and> length (operationQueue (snd (Key_write now stringify d acl_id r app)))
            = length (operationQueue app) + 1
        \<and> oid (last (operationQueue (snd (Key_write now stringify d acl_id r app))))
            = nextOid app
        \<and> data (last (operationQueue (snd (Key_write now stringify d acl_id r app))))
            = map_option Primitive res)
   \<and> (\<not> queueDraining app \<longrightarrow>
        fst (Key_write now stringify DUndefined acl_id r app) = Pending (nextOid app)
        \<and> length (operationQueue (snd (Key_write now stringify DUndefined acl_id r app)))
            = length (operationQueue app) + 1
        \<and> oid (last (operationQueue (snd (Key_write now stringify DUndefined acl_id r app))))
            = nextOid app
        \<and> data (last (operationQueue (snd (Key_write now stringify DUndefined acl_id r app))))
            = None)
   \<and> (typeof d = ''object'' \<and> \<not> isString d \<and> stringify d = Inl thrown \<longrightarrow>
        Key_write now stringify d acl_id r app =
          (Raised thrown,
           app\<lparr> lastCts := max (lastCts app + 1) now, nextOid := nextOid app + 1 \<rparr>))
   \<and> (queueDraining app
        \<and> (isString d \<or> d = DUndefined
            \<or> typeof d = ''object'' \<and> (\<exists>res. stringify d = Inr res)) \<longrightarrow>
        Key_write now stringify d acl_id r app =
          (Raised ''request for new operation when queue is draining'',
           app\<lparr> lastCts := max (lastCts app + 1) now, nextOid := nextOid app + 1 \<rparr>))"
proof -
  have rej: "typeof d \<noteq> ''string'' \<and> typeof d \<noteq> ''object'' \<and> d \<noteq> DUndefined \<longrightarrow>
      Key_write now stringify d acl_id r app =
        (Rejected \<lparr> message = ''Value for data is not string or object type.'',
                    code = RequestError \<rparr>,
         app\<lparr> lastCts := max (lastCts app + 1) now, nextOid := nextOid app + 1 \<rparr>)
      \<and> RequestError = 4
      \<and> operationQueue (snd (Key_write now stringify d acl_id r app)) = operationQueue app"
    by (cases d)
       (simp_all add: Key_write_def Operation_pub_def App_nextCts_def Let_def RequestError_def)
  have str: "\<not> queueDraining app \<longrightarrow>
        fst (Key_write now stringify (DString s) acl_id r app) = Pending (nextOid app)
        \<and> length (operationQueue (snd (Key_write now stringify (DString s) acl_id r app)))
            = length (operationQueue app) + 1
        \<and> oid (last (operationQueue (snd (Key_write now stringify (DString s) acl_id r app))))
            = nextOid app
        \<and> data (last (operationQueue (snd (Key_write now stringify (DString s) acl_id r app))))
            = Some (Primitive s)"
    by (cases acl_id)
       (simp_all add: Key_write_def Operation_pub_def App_nextCts_def Let_def
          App_addOperation_eq add_result_last Operation_new_def)
  have strobj: "\<not> queueDraining app \<longrightarrow>
        fst (Key_write now stringify (DStringObject s) acl_id r app) = Pending (nextOid app)
        \<and> length (operationQueue (snd (Key_write now stringify (DStringObject s) acl_id r app)))
            = length (operationQueue app) + 1
        \<and> oid (last (operationQueue
              (snd (Key_write now stringify (DStringObject s) acl_id r app))))
            = nextOid app
        \<and> data (last (operationQueue
              (snd (Key_write now stringify (DStringObject s) acl_id r app))))
            = Some (StringObject s)"
    by (cases acl_id)
       (simp_all add: Key_write_def Operation_pub_def App_nextCts_def Let_def
          App_addOperation_eq add_result_last Operation_new_def)
  have obj: "\<not> queueDraining app \<and> typeof d = ''object'' \<and> \<not> isString d
        \<and> stringify d = Inr res \<longrightarrow>
        fst (Key_write now stringify d acl_id r app) = Pending (nextOid app)
        \<and> length (operationQueue (snd (Key_write now stringify d acl_id r app)))
            = length (operationQueue app) + 1
        \<and> oid (last (operationQueue (snd (Key_write now stringify d acl_id r app))))
            = nextOid app
        \<and> data (last (operationQueue (snd (Key_write now stringify d acl_id r app))))
            = map_option Primitive res"
    by (cases acl_id)
       (simp_all add: Key_write_def Operation_pub_def App_nextCts_def Let_def
          App_addOperation_eq add_result_last Operation_new_def)
  have undef: "\<not> queueDraining app \<longrightarrow>
        fst (Key_write now stringify DUndefined acl_id r app) = Pending (nextOid app)
        \<and> length (operationQueue (snd (Key_write now stringify DUndefined acl_id r app)))
            = length (operationQueue app) + 1
        \<and> oid (last (operationQueue (snd (Key_write now stringify DUndefined acl_id r app))))
            = nextOid app
        \<and> data (last (operationQueue (snd (Key_write now stringify DUndefined acl_id r app))))
            = None"
    by (cases acl_id)
       (simp_all add: Key_write_def Operation_pub_def App_nextCts_def Let_def
          App_addOperation_eq add_result_last Operation_new_def)
  have thrown: "typeof d = ''object'' \<and> \<not> isString d \<and> stringify d = Inl thrown \<longrightarrow>
        Key_write now stringify d acl_id r app =
          (Raised thrown,
           app\<lparr> lastCts := max (lastCts app + 1) now, nextOid := nextOid app + 1 \<rparr>)"
    by (simp add: Key_write_def Operation_pub_def App_nextCts_def Let_def)
  have draining: "queueDraining app
        \<and> (isString d \<or> d = DUndefined
            \<or> typeof d = ''object'' \<and> (\<exists>res. stringify d = Inr res)) \<longrightarrow>
        Key_write now stringify d acl_id r app =
          (Raised ''request for new operation when queue is draining'',
           app\<lparr> lastCts := max (lastCts app + 1) now, nextOid := nextOid app + 1 \<rparr>)"
    by (cases acl_id)
       (auto simp: Key_write_def Operation_pub_def App_nextCts_def Let_def
          App_addOperation_def)
  from rej str strobj obj undef thrown draining show ?thesis by blast
qed

theorem Key_write_data_witness:
  "fst (Key_write 1000 (\<lambda>d. Inr (Some ''{}'')) (DBoolean True :: unit jsdata) None 1
          (App_new example_keys :: unit App))
     = Rejected \<lparr> message = ''Value for data is not string or object type.'', code = 4 \<rparr>
   \<and> operationQueue (snd (Key_write 1000 (\<lambda>d. Inr (Some ''{}'')) (DBoolean True :: unit jsdata)
          None 1 (App_new example_keys :: unit App))) = []
   \<and> data (last (operationQueue (snd (Key_write 1000 (\<lambda>d. Inr (Some ''{}''))
          (DString ''hello'' :: unit jsdata) None 1 (App_new example_keys :: unit App)))))
       = Some (Primitive ''hello'')
   \<and> data (last (operationQueue (snd (Key_write 1000 (\<lambda>d. Inr (Some ''{}''))
          (DStringObject ''hello'' :: unit jsdata) None 1 (App_new example_keys :: unit App)))))
       = Some (StringObject ''hello'')
   \<and> data (last (operationQueue (snd (Key_write 1000 (\<lambda>d. Inr (Some ''{}''))
          (DObject () :: unit jsdata) None 1 (App_new example_keys :: unit App)))))
       = Some (Primitive ''{}'')
   \<and> data (last (operationQueue (snd (Key_write 1000 (\<lambda>d. Inr (Some ''{}''))
          (DUndefined :: unit jsdata) None 1 (App_new example_keys :: unit App)))))
       = None
   \<and> fst (Key_write 1000 (\<lambda>d. Inl ''TypeError: Converting circular structure to JSON'')
          (DObject () :: unit jsdata) None 1 (App_new example_keys :: unit App))
       = Raised ''TypeError: Converting circular structure to JSON''
   \<and> queueDraining (run example_keys example_draining)
   \<and> fst (Key_write 1000 (\<lambda>d. Inr (Some ''{}'')) (DString ''hello'' :: unit jsdata) None 1
          (run example_keys example_draining))
       = Raised ''request for new operation when queue is draining''"
proof -
  let ?app = "App_new example_keys :: unit App"
  let ?st = "\<lambda>d :: unit jsdata. Inr (Some ''{}'') :: string + string option"
  let ?cyclic = "\<lambda>d :: unit jsdata.
      Inl ''TypeError: Converting circular structure to JSON'' :: string + string option"
  have q: "\<not> queueDraining ?app" and e: "operationQueue ?app = []"
    by (simp_all add: App_new_def)
  have t: "typeof (DBoolean True :: unit jsdata) \<noteq> ''string''
      \<and> typeof (DBoolean True :: unit jsdata) \<noteq> ''object''
      \<and> (DBoolean True :: unit jsdata) \<noteq> DUndefined"
    by simp
  have o: "typeof (DObject () :: unit jsdata) = ''object'' \<and> \<not> isString (DObject () :: unit jsdata)"
    by simp
  have dr: "queueDraining (run example_keys example_draining)" by code_simp
  from Key_write_data [where d = "DBoolean True :: unit jsdata" and now = 1000
      and stringify = ?st and acl_id = None and r = 1 and app = ?app] t e
  have c1: "fst (Key_write 1000 ?st (DBoolean True) None 1 ?app)
     = Rejected \<lparr> message = ''Value for data is not string or object type.'', code = 4 \<rparr>
   \<and> operationQueue (snd (Key_write 1000 ?st (DBoolean True) None 1 ?app)) = []"
    by (simp add: RequestError_def)
  from Key_write_data [where s = "''hello''" and now = 1000
      and stringify = ?st and acl_id = None and r = 1 and app = ?app] q
  have c2: "data (last (operationQueue (snd (Key_write 1000 ?st (DString ''hello'') None 1 ?app))))
      = Some (Primitive ''hello'')"
    and c3: "data (last (operationQueue
        (snd (Key_write 1000 ?st (DStringObject ''hello'') None 1 ?app))))
      = Some (StringObject ''hello'')"
    and c5: "data (last (operationQueue (snd (Key_write 1000 ?st DUndefined None 1 ?app))))
      = None"
    by blast+
  from Key_write_data [where d = "DObject () :: unit jsdata" and now = 1000
      and stringify = ?st and acl_id = None and r = 1 and app = ?app
      and res = "Some ''{}''"] q o
  have c4: "data (last (operationQueue (snd (Key_write 1000 ?st (DObject ()) None 1 ?app))))
      = Some (Primitive ''{}'')"
    by simp
  from Key_write_data [where d = "DObject () :: unit jsdata" and now = 1000
      and stringify = ?cyclic and acl_id = None and r = 1 and app = ?app
      and thrown = "''TypeError: Converting circular structure to JSON''"] o
  have c6: "fst (Key_write 1000 ?cyclic (DObject ()) None 1 ?app)
      = Raised ''TypeError: Converting circular structure to JSON''"
    by simp
  from Key_write_data [where d = "DString ''hello'' :: unit jsdata" and now = 1000
      and stringify = ?st and acl_id = None and r = 1
      and app = "run example_keys example_draining"] dr
  have c7: "fst (Key_write 1000 ?st (DString ''hello'') None 1 (run example_keys example_draining))
      = Raised ''request for new operation when queue is draining''"
    by simp
  from c1 c2 c3 c4 c5 c6 c7 dr show ?thesis by blast
qed

section \<open>Serialization of operations with one signature\<close>

lemma find_filter_hd:
  "find P xs = (case filter P xs of [] \<Rightarrow> None | x # ys \<Rightarrow> Some x)"
  by (induction xs) auto

lemma query_matches_signature:
  "wf_op op \<Longrightarrow> wf_op x \<Longrightarrow>
   query_matches (Operation_query op) x \<longleftrightarrow> Operation_query x = Operation_query op"
  by (cases "keyObj op") (auto simp: query_matches_def Operation_query_def wf_op_def)

lemma filter_query_matches:
  "wf_op op \<Longrightarrow> \<forall>x\<in>set q. wf_op x \<Longrightarrow>
   filter (query_matches (Operation_query op)) q = with_signature (Operation_query op) q"
  unfolding with_signature_def
  by (rule filter_cong) (auto simp: query_matches_signature)

lemma wf_op_start [simp]: "wf_op (Operation_start app x) = wf_op x"
  by (simp add: wf_op_def)

lemma with_signature_append [simp]:
  "with_signature s (xs @ ys) = with_signature s xs @ with_signature s ys"
  by (simp add: with_signature_def)

lemma with_signature_Cons:
  "with_signature s (x # xs) =
     (if Operation_query x = s then x # with_signature s xs else with_signature s xs)"
  by (simp add: with_signature_def)

lemma with_signature_Nil [simp]: "with_signature s [] = []"
  by (simp add: with_signature_def)

lemma set_with_signature:
  "set (with_signature s q) = {x \<in> set q. Operation_query x = s}"
  by (auto simp: with_signature_def)

lemma head_started_append_unstarted:
  "head_started xs \<Longrightarrow> xs \<noteq> [] \<Longrightarrow> \<not> started x \<Longrightarrow> head_started (xs @ [x])"
  by (cases xs) auto

lemma start_oid_absent: "i \<notin> oid ` set q \<Longrightarrow> start_oid app i q = q"
  by (induction q) (auto simp: start_oid_def)

lemma start_oid_Cons_hd:
  "oid x \<notin> oid ` set xs \<Longrightarrow> start_oid app (oid x) (x # xs) = Operation_start app x # xs"
  using start_oid_absent [of "oid x" xs app] by (simp add: start_oid_def)

lemma start_oid_oids [simp]: "map oid (start_oid app i q) = map oid q"
  by (induction q) (auto simp: start_oid_def)

lemma start_oid_length [simp]: "length (start_oid app i q) = length q"
  by (simp add: start_oid_def)

lemma start_oid_wf: "\<forall>x\<in>set q. oid x < n \<and> wf_op x \<Longrightarrow>
   \<forall>x\<in>set (start_oid app i q). oid x < n \<and> wf_op x"
  by (auto simp: start_oid_def)

lemma with_signature_start_oid:
  "with_signature s (start_oid app i q) = start_oid app i (with_signature s q)"
  by (induction q) (auto simp: start_oid_def with_signature_def)

lemma distinct_with_signature:
  "distinct (map oid q) \<Longrightarrow> distinct (map oid (with_signature s q))"
  by (simp add: with_signature_def distinct_map_filter)

text \<open>
  Starting the first operation of a signature keeps every signature's operations in
  shape, provided the others of that signature are not started.
\<close>

lemma head_started_start_first:
  assumes d: "distinct (map oid q)"
    and hd: "with_signature t q = x # xs"
    and rest: "\<forall>y\<in>set xs. \<not> started y"
    and others: "\<forall>s. s \<noteq> t \<longrightarrow> head_started (with_signature s q)"
  shows "head_started (with_signature s (start_oid app (oid x) q))"
proof (cases "s = t")
  case True
  from d have "distinct (map oid (with_signature t q))" by (rule distinct_with_signature)
  with hd have "oid x \<notin> oid ` set xs" by auto
  then have "start_oid app (oid x) (x # xs) = Operation_start app x # xs"
    by (rule start_oid_Cons_hd)
  with True hd rest show ?thesis
    by (simp add: with_signature_start_oid)
next
  case False
  have "x \<in> set (with_signature t q)" using hd by simp
  then have xq: "x \<in> set q" and xt: "Operation_query x = t"
    by (auto simp: set_with_signature)
  have "oid x \<notin> oid ` set (with_signature s q)"
  proof
    assume "oid x \<in> oid ` set (with_signature s q)"
    then obtain y where y: "y \<in> set q" "Operation_query y = s" "oid y = oid x"
      by (auto simp: set_with_signature)
    with d xq have "y = x" by (metis distinct_map inj_on_def)
    with y xt False show False by simp
  qed
  then have "start_oid app (oid x) (with_signature s q) = with_signature s q"
    by (rule start_oid_absent)
  moreover from False others have "head_started (with_signature s q)" by blast
  ultimately show ?thesis
    by (simp add: with_signature_start_oid)
qed

lemma add_result_start_oid:
  "add_result op app =
     (case find (query_matches (Operation_query op)) (operationQueue app @ [op]) of
        Some next \<Rightarrow>
          if oid next = oid op then start_oid app (oid op) (operationQueue app @ [op])
          else operationQueue app @ [op]
      | None \<Rightarrow> operationQueue app @ [op])"
  by (simp add: add_result_def start_oid_def split: option.splits)

lemma queue_inv_add:
  assumes inv: "queue_inv n (operationQueue app)"
    and fresh: "oid op = n" and wf: "wf_op op" and ns: "\<not> started op"
  shows "queue_inv (Suc n) (add_result op app)"
proof -
  let ?q = "operationQueue app"
  let ?t = "Operation_query op"
  from inv have ids: "\<forall>x\<in>set ?q. oid x < n \<and> wf_op x" and d: "distinct (map oid ?q)"
    and hs: "\<And>s. head_started (with_signature s ?q)"
    by (auto simp: queue_inv_def)
  from ids fresh have notin: "oid op \<notin> oid ` set ?q" by auto
  with d have d1: "distinct (map oid (?q @ [op]))" by simp
  from ids wf have wf1: "\<forall>x\<in>set (?q @ [op]). wf_op x" by auto
  from ids fresh have ids1: "\<forall>x\<in>set (?q @ [op]). oid x < Suc n \<and> wf_op x"
    using wf by (auto simp: less_Suc_eq)
  have flt: "filter (query_matches ?t) (?q @ [op]) = with_signature ?t ?q @ [op]"
    using filter_query_matches [OF wf wf1] by (simp add: with_signature_def)
  show ?thesis
  proof (cases "with_signature ?t ?q")
    case Nil
    then have res: "add_result op app = start_oid app (oid op) (?q @ [op])"
      using flt by (simp add: add_result_start_oid find_filter_hd)
    have hd: "with_signature ?t (?q @ [op]) = op # []"
      using Nil by (simp add: with_signature_def)
    have others: "\<forall>s. s \<noteq> ?t \<longrightarrow> head_started (with_signature s (?q @ [op]))"
      using hs by (simp add: with_signature_Cons)
    have "\<And>s. head_started (with_signature s (start_oid app (oid op) (?q @ [op])))"
      by (rule head_started_start_first [OF d1 hd _ others]) simp
    with res start_oid_wf [OF ids1, of app "oid op"] d1 show ?thesis
      by (simp add: queue_inv_def)
  next
    case (Cons y ys)
    then have "y \<in> set (with_signature ?t ?q)" by simp
    then have "y \<in> set ?q" by (simp add: set_with_signature)
    with ids fresh have "oid y \<noteq> oid op" by auto
    with Cons flt have res: "add_result op app = ?q @ [op]"
      by (simp add: add_result_start_oid find_filter_hd)
    have "\<And>s. head_started (with_signature s (?q @ [op]))"
    proof -
      fix s
      show "head_started (with_signature s (?q @ [op]))"
      proof (cases "s = ?t")
        case True
        with Cons hs [of ?t] ns show ?thesis
          by (simp add: with_signature_Cons head_started_append_unstarted)
      next
        case False
        with hs [of s] show ?thesis by (simp add: with_signature_Cons)
      qed
    qed
    with res ids1 d1 show ?thesis
      by (simp add: queue_inv_def)
  qed
qed

lemma remove_result_start_oid:
  "remove_result op app =
     (case find (query_matches (Operation_query op))
             (filter (\<lambda>x. oid x \<noteq> oid op) (operationQueue app)) of
        Some next \<Rightarrow> start_oid app (oid next) (filter (\<lambda>x. oid x \<noteq> oid op) (operationQueue app))
      | None \<Rightarrow> filter (\<lambda>x. oid x \<noteq> oid op) (operationQueue app))"
  by (simp add: remove_result_def start_oid_def Let_def split: option.splits)

lemma App_removeOperation_queue [simp]:
  "operationQueue (App_removeOperation op app) = remove_result op app"
  "nextOid (App_removeOperation op app) = nextOid app"
  by (simp_all add: App_removeOperation_def remove_result_def start_in_queue_def Let_def
        split: option.splits)

lemma head_started_tl_filter:
  "head_started xs \<Longrightarrow> \<forall>y\<in>set (tl (filter R xs)). \<not> started y"
proof (cases xs)
  case Nil
  then show ?thesis by simp
next
  case (Cons x xs')
  assume "head_started xs"
  with Cons have un: "\<forall>y\<in>set xs'. \<not> started y" by simp
  have "set (tl (filter R xs)) \<subseteq> set xs'"
  proof (cases "R x")
    case True
    with Cons show ?thesis by auto
  next
    case False
    with Cons have "filter R xs = filter R xs'" by simp
    then show ?thesis
      by (metis filter_is_subset list.set_sel(2) subset_iff tl_Nil)
  qed
  with un show ?thesis by blast
qed

lemma with_signature_filter:
  "with_signature s (filter R q) = filter R (with_signature s q)"
  by (auto simp: with_signature_def conj_commute)

lemma queue_inv_remove:
  assumes inv: "queue_inv n (operationQueue app)"
    and mem: "x0 \<in> set (operationQueue app)"
    and same: "oid op = oid x0" "Operation_query op = Operation_query x0"
  shows "queue_inv n (remove_result op app)"
proof -
  let ?q = "operationQueue app"
  let ?R = "\<lambda>x. oid x \<noteq> oid op"
  let ?q1 = "filter ?R ?q"
  let ?t = "Operation_query op"
  from inv have ids: "\<forall>x\<in>set ?q. oid x < n \<and> wf_op x" and d: "distinct (map oid ?q)"
    and hs: "\<And>s. head_started (with_signature s ?q)"
    by (auto simp: queue_inv_def)
  have ids1: "\<forall>x\<in>set ?q1. oid x < n \<and> wf_op x" using ids by simp
  have d1: "distinct (map oid ?q1)" using d by (simp add: distinct_map_filter)
  from ids mem have "wf_op x0" by blast
  with same have wf: "wf_op op" by (simp add: wf_op_def Operation_query_def)
  have flt: "filter (query_matches ?t) ?q1 = with_signature ?t ?q1"
    using filter_query_matches [OF wf, of ?q1] ids1 by blast
  have rest: "\<forall>y\<in>set (tl (with_signature ?t ?q1)). \<not> started y"
    using head_started_tl_filter [OF hs [of ?t], of ?R] by (simp add: with_signature_filter)
  have others: "\<forall>s. s \<noteq> ?t \<longrightarrow> head_started (with_signature s ?q1)"
  proof (intro allI impI)
    fix s assume ne: "s \<noteq> ?t"
    have "\<forall>y\<in>set (with_signature s ?q). ?R y"
    proof
      fix y assume "y \<in> set (with_signature s ?q)"
      then have y: "y \<in> set ?q" "Operation_query y = s" by (auto simp: set_with_signature)
      show "?R y"
      proof
        assume "oid y = oid op"
        with same have "oid y = oid x0" by simp
        with d y mem have "y = x0" by (metis distinct_map inj_on_def)
        with y same ne show False by simp
      qed
    qed
    then have "filter ?R (with_signature s ?q) = with_signature s ?q" by simp
    with hs [of s] show "head_started (with_signature s ?q1)"
      by (simp add: with_signature_filter)
  qed
  show ?thesis
  proof (cases "with_signature ?t ?q1")
    case Nil
    with flt have res: "remove_result op app = ?q1"
      by (simp add: remove_result_start_oid find_filter_hd)
    have "\<And>s. head_started (with_signature s ?q1)"
    proof -
      fix s show "head_started (with_signature s ?q1)"
      proof (cases "s = ?t")
        case True
        with Nil show ?thesis by simp
      next
        case False
        with others show ?thesis by blast
      qed
    qed
    with res ids1 d1 show ?thesis by (simp add: queue_inv_def)
  next
    case (Cons x xs)
    with flt have res: "remove_result op app = start_oid app (oid x) ?q1"
      by (simp add: remove_result_start_oid find_filter_hd)
    from rest Cons have un: "\<forall>y\<in>set xs. \<not> started y" by simp
    have "\<And>s. head_started (with_signature s (start_oid app (oid x) ?q1))"
      by (rule head_started_start_first [OF d1 Cons un others])
    with res start_oid_wf [OF ids1, of app "oid x"] d1 show ?thesis
      by (simp add: queue_inv_def)
  qed
qed

lemma queue_inv_mono: "queue_inv n q \<Longrightarrow> n \<le> m \<Longrightarrow> queue_inv m q"
  by (fastforce simp: queue_inv_def)

lemma queue_inv_Nil [simp]: "queue_inv n []"
  by (simp add: queue_inv_def)

section \<open>The loops in closed form\<close>

lemma Key_deliver_fields [simp]:
  "keyObjs (Key_deliver r val app) = keyObjs app"
  "memoryDB (Key_deliver r val app) = memoryDB app"
  by (simp_all add: Key_deliver_def)

lemma deliver_loop:
  "foldl (\<lambda>a r. if Key_matches (keyObjs a r) k then Key_deliver r val a else a) app rs
     = app\<lparr> ticks := ticks app @ map (\<lambda>r. DeliverTask r val)
                                    (filter (\<lambda>r. Key_matches (keyObjs app r) k) rs) \<rparr>"
proof (induction rs arbitrary: app)
  case Nil
  show ?case by simp
next
  case (Cons r rs)
  show ?case
    by (simp add: Cons.IH) (simp add: Key_deliver_def)
qed

lemma App_deliverToListeners_eq:
  "App_deliverToListeners val app =
     (if value_vts val \<le> (case memoryDB app (value_key val) of None \<Rightarrow> 0 | Some lv \<Rightarrow> value_vts lv)
      then app
      else app\<lparr> memoryDB := (memoryDB app)(value_key val \<mapsto> val),
                 vtsIndex := (vtsIndex app)(value_vts val \<mapsto> value_key val),
                 ticks := ticks app @ map (\<lambda>r. DeliverTask r val)
                            (filter (\<lambda>r. Key_matches (keyObjs app r) (value_key val))
                               (listeners app)) \<rparr>)"
  by (simp add: App_deliverToListeners_def deliver_loop Let_def)

lemma primed_ticks [simp]: "primed (app\<lparr> ticks := t \<rparr>) r enum = primed app r enum"
  by (simp add: primed_def cong: option.case_cong)

lemma primed_Cons: "primed app r (k # ks) = primed app r [k] @ primed app r ks"
  by (simp add: primed_def)

lemma priming_loop:
  "foldl (\<lambda>a keyString.
            case memoryDB a keyString of
              None \<Rightarrow> a
            | Some val \<Rightarrow>
                if Key_matches (keyObjs a r) keyString then
                  (if value_exists val then Key_deliver r val a else a)
                else a) app enum
     = app\<lparr> ticks := ticks app @ map (DeliverTask r) (primed app r enum) \<rparr>"
proof (induction enum arbitrary: app)
  case Nil
  show ?case by (simp add: primed_def)
next
  case (Cons k ks)
  have one: "(case memoryDB app k of
                None \<Rightarrow> app
              | Some val \<Rightarrow>
                  if Key_matches (keyObjs app r) k then
                    (if value_exists val then Key_deliver r val app else app)
                  else app)
             = app\<lparr> ticks := ticks app @ map (DeliverTask r) (primed app r [k]) \<rparr>"
    by (simp add: primed_def Key_deliver_def split: option.splits)
  show ?case
    by (simp only: foldl_Cons one Cons.IH) (simp add: primed_Cons [of app r k ks])
qed

section \<open>What delivery leaves alone\<close>

lemma only_sync_refl [simp]: "only_sync a a"
  by (simp add: only_sync_def)

lemma only_sync_trans: "only_sync a b \<Longrightarrow> only_sync b c \<Longrightarrow> only_sync a c"
proof -
  assume ab: "only_sync a b" and bc: "only_sync b c"
  from bc have "c = b\<lparr> memoryDB := memoryDB c, vtsIndex := vtsIndex c, ticks := ticks c \<rparr>"
    by (simp add: only_sync_def)
  also from ab have "b = a\<lparr> memoryDB := memoryDB b, vtsIndex := vtsIndex b, ticks := ticks b \<rparr>"
    by (simp add: only_sync_def)
  finally show ?thesis by (simp add: only_sync_def)
qed

lemma only_sync_fields:
  assumes "only_sync a b"
  shows "operationQueue b = operationQueue a" "nextOid b = nextOid a" "keyObjs b = keyObjs a"
    "log b = log a" "queueDraining b = queueDraining a" "listeners b = listeners a"
    "rvtsDict b = rvtsDict a" "advanceScheduled b = advanceScheduled a"
    "lastCts b = lastCts a" "acls b = acls a" "timers b = timers a"
proof -
  from assms have b: "b = a\<lparr> memoryDB := memoryDB b, vtsIndex := vtsIndex b, ticks := ticks b \<rparr>"
    by (simp add: only_sync_def)
  show "operationQueue b = operationQueue a" by (subst b) simp
  show "nextOid b = nextOid a" by (subst b) simp
  show "keyObjs b = keyObjs a" by (subst b) simp
  show "log b = log a" by (subst b) simp
  show "queueDraining b = queueDraining a" by (subst b) simp
  show "listeners b = listeners a" by (subst b) simp
  show "rvtsDict b = rvtsDict a" by (subst b) simp
  show "advanceScheduled b = advanceScheduled a" by (subst b) simp
  show "lastCts b = lastCts a" by (subst b) simp
  show "acls b = acls a" by (subst b) simp
  show "timers b = timers a" by (subst b) simp
qed

lemma only_sync_deliverToListeners: "only_sync app (App_deliverToListeners val app)"
  by (simp add: App_deliverToListeners_eq only_sync_def)

lemma only_sync_deliver_all:
  "only_sync app (foldl (\<lambda>a val. App_deliverToListeners val a) app vals)"
proof (induction vals arbitrary: app)
  case Nil
  show ?case by simp
next
  case (Cons v vs)
  have "only_sync app (App_deliverToListeners v app)"
    by (rule only_sync_deliverToListeners)
  moreover have "only_sync (App_deliverToListeners v app)
      (foldl (\<lambda>a val. App_deliverToListeners val a) (App_deliverToListeners v app) vs)"
    by (rule Cons.IH)
  ultimately show ?case
    by (simp add: only_sync_trans)
qed

lemma only_sync_advance_loop: "only_sync app (fst (advance_loop vs acc app))"
proof (induction vs arbitrary: acc app)
  case Nil
  show ?case by simp
next
  case (Cons v vs)
  show ?case
  proof (cases "vtsIndex app v")
    case None
    then show ?thesis using Cons.IH [of app "acc @ [v]"] by simp
  next
    case (Some k)
    show ?thesis
    proof (cases "memoryDB app k")
      case None
      with Some show ?thesis by simp
    next
      case (Some val)
      show ?thesis
      proof (cases "value_vts val < v")
        case True
        with Some \<open>vtsIndex app v = Some k\<close> Cons.IH [of app "acc @ [v]"] show ?thesis by simp
      next
        case False
        have "only_sync app (App_deliverToListeners val app)"
          by (rule only_sync_deliverToListeners)
        moreover have "only_sync (App_deliverToListeners val app)
            (fst (advance_loop vs acc (App_deliverToListeners val app)))"
          by (rule Cons.IH)
        ultimately have "only_sync app (fst (advance_loop vs acc (App_deliverToListeners val app)))"
          by (rule only_sync_trans)
        with False Some \<open>vtsIndex app v = Some k\<close> show ?thesis by simp
      qed
    qed
  qed
qed

section \<open>The queue invariant along a run\<close>

lemma queue_ok_new [simp]: "queue_ok (App_new ks)"
  by (simp add: queue_ok_def App_new_def)

lemma queue_ok_add:
  assumes ok: "queue_ok app"
    and q: "operationQueue app1 = operationQueue app"
    and n: "nextOid app1 = Suc (nextOid app)"
    and op: "oid op = nextOid app" "wf_op op" "\<not> started op"
  shows "queue_ok app1"
    and "App_addOperation op app1 = Inr app2 \<Longrightarrow> queue_ok app2"
proof -
  from ok q n show ok1: "queue_ok app1"
    by (simp add: queue_ok_def queue_inv_mono)
  assume "App_addOperation op app1 = Inr app2"
  then have app2: "app2 = app1\<lparr> operationQueue := add_result op app1 \<rparr>"
    by (simp add: App_addOperation_eq split: if_splits)
  from ok q have "queue_inv (nextOid app) (operationQueue app1)"
    by (simp add: queue_ok_def)
  from queue_inv_add [OF this op] show "queue_ok app2"
    by (simp add: app2 queue_ok_def n)
qed

lemma Operation_new_shape [simp]:
  "oid (Operation_new i k ko) = i"
  "kind (Operation_new i k ko) = k"
  "keyObj (Operation_new i k ko) = ko"
  "started (Operation_new i k ko) = False"
  by (simp_all add: Operation_new_def)

lemma wf_op_updates [simp]:
  "wf_op (op\<lparr> cts := c \<rparr>) = wf_op op"
  "wf_op (op\<lparr> data := d \<rparr>) = wf_op op"
  "wf_op (op\<lparr> deletePath := b \<rparr>) = wf_op op"
  "wf_op (op\<lparr> aclid := a \<rparr>) = wf_op op"
  "wf_op (op\<lparr> unsub := u \<rparr>) = wf_op op"
  "wf_op (op\<lparr> vts := vs \<rparr>) = wf_op op"
  "wf_op (op\<lparr> rvtsPrime := rp \<rparr>) = wf_op op"
  by (simp_all add: wf_op_def)

lemma wf_op_new [simp]:
  "wf_op (Operation_new i Pub (Some r))"
  "wf_op (Operation_new i Sub (Some r))"
  "wf_op (Operation_new i Advance (Some r))"
  "wf_op (Operation_new i Fetch (Some r))"
  "wf_op (Operation_new i GetAcls None)"
  by (simp_all add: wf_op_def)

lemma queue_ok_cong:
  "operationQueue b = operationQueue a \<Longrightarrow> nextOid b = nextOid a \<Longrightarrow> queue_ok b = queue_ok a"
  by (simp add: queue_ok_def)

lemma queue_ok_only_sync: "only_sync a b \<Longrightarrow> queue_ok b = queue_ok a"
  by (rule queue_ok_cong) (rule only_sync_fields, assumption)+

lemma queue_ok_startAdvance: "queue_ok app \<Longrightarrow> queue_ok (fst (App_startAdvance r app))"
proof -
  assume ok: "queue_ok app"
  let ?op = "Operation_new (nextOid app) Advance (Some r)"
  let ?app1 = "app\<lparr> nextOid := nextOid app + 1 \<rparr>"
  have a: "queue_ok ?app1"
    by (rule queue_ok_add(1) [OF ok, of _ ?op]) simp_all
  have b: "\<And>app2. App_addOperation ?op ?app1 = Inr app2 \<Longrightarrow> queue_ok app2"
    by (rule queue_ok_add(2) [OF ok, of ?app1 ?op]) simp_all
  show ?thesis
  proof (cases "App_addOperation ?op ?app1")
    case (Inl e)
    with a ok show ?thesis
      by (simp add: App_startAdvance_def Operation_advance_def Let_def)
  next
    case (Inr app2)
    from b [OF Inr] have "queue_ok (app2\<lparr> advanceScheduled :=
        (advanceScheduled app2)(''*.'' @ key (keyObjs app r) \<mapsto> True) \<rparr>)"
      by (simp add: queue_ok_def)
    with Inr ok show ?thesis
      by (simp add: App_startAdvance_def Operation_advance_def Let_def)
  qed
qed

lemma queue_ok_sub_then:
  assumes ok: "queue_ok app"
  shows "queue_ok (app\<lparr> nextOid := nextOid app + 1 \<rparr>)"
    and "App_addOperation ((Operation_new (nextOid app) Sub (Some r))\<lparr> unsub := u \<rparr>)
           (app\<lparr> nextOid := nextOid app + 1 \<rparr>) = Inr app2 \<Longrightarrow> queue_ok app2"
    and "App_addOperation (Operation_new (nextOid app) Sub (Some r))
           (app\<lparr> nextOid := nextOid app + 1 \<rparr>) = Inr app2 \<Longrightarrow> queue_ok app2"
proof -
  show "queue_ok (app\<lparr> nextOid := nextOid app + 1 \<rparr>)"
    by (rule queue_ok_add(1) [OF ok, of _ "Operation_new (nextOid app) Sub (Some r)"]) simp_all
  show "App_addOperation ((Operation_new (nextOid app) Sub (Some r))\<lparr> unsub := u \<rparr>)
           (app\<lparr> nextOid := nextOid app + 1 \<rparr>) = Inr app2 \<Longrightarrow> queue_ok app2"
    by (rule queue_ok_add(2) [OF ok, of "app\<lparr> nextOid := nextOid app + 1 \<rparr>"
          "(Operation_new (nextOid app) Sub (Some r))\<lparr> unsub := u \<rparr>"]) simp_all
  show "App_addOperation (Operation_new (nextOid app) Sub (Some r))
           (app\<lparr> nextOid := nextOid app + 1 \<rparr>) = Inr app2 \<Longrightarrow> queue_ok app2"
    by (rule queue_ok_add(2) [OF ok, of "app\<lparr> nextOid := nextOid app + 1 \<rparr>"
          "Operation_new (nextOid app) Sub (Some r)"]) simp_all
qed

lemma queue_ok_addListener: "queue_ok app \<Longrightarrow> queue_ok (fst (App_addListener enum r app))"
proof -
  assume ok: "queue_ok app"
  show ?thesis
  proof (cases "r \<in> set (listeners app)")
    case True
    with ok show ?thesis by (simp add: App_addListener_def)
  next
    case False
    define app2 where "app2 =
      app\<lparr> listeners := listeners app @ [r],
            keyObjs := (keyObjs app)(r := (keyObjs app r)\<lparr> latest := Map.empty \<rparr>),
            log := log app @ [ListenerAdded r],
            ticks := ticks app @ map (DeliverTask r)
              (primed (app\<lparr> listeners := listeners app @ [r],
                 keyObjs := (keyObjs app)(r := (keyObjs app r)\<lparr> latest := Map.empty \<rparr>),
                 log := log app @ [ListenerAdded r] \<rparr>) r enum) \<rparr>"
    have ok2: "queue_ok app2"
      using ok by (simp add: app2_def queue_ok_def)
    have res: "App_addListener enum r app =
       (if \<not> App_hasListener app (key (keyObjs app r)) then
          (case Operation_sub r app2 of
             (op, app3) \<Rightarrow>
               (case App_addOperation op app3 of
                  Inl err \<Rightarrow> (app3, Some err)
                | Inr app4 \<Rightarrow> App_startAdvance r app4))
        else App_startAdvance r app2)"
      using False by (simp add: App_addListener_def Let_def priming_loop app2_def)
    show ?thesis
    proof (cases "App_hasListener app (key (keyObjs app r))")
      case True
      with res ok2 show ?thesis by (simp add: queue_ok_startAdvance)
    next
      case nl: False
      show ?thesis
      proof (cases "App_addOperation (Operation_new (nextOid app2) Sub (Some r))
                      (app2\<lparr> nextOid := nextOid app2 + 1 \<rparr>)")
        case (Inl e)
        with res nl queue_ok_sub_then(1) [OF ok2] show ?thesis
          by (simp add: Operation_sub_def)
      next
        case (Inr app4)
        from queue_ok_sub_then(3) [OF ok2 Inr] have "queue_ok app4" .
        then have "queue_ok (fst (App_startAdvance r app4))" by (rule queue_ok_startAdvance)
        with res nl Inr show ?thesis by (simp add: Operation_sub_def)
      qed
    qed
  qed
qed

lemma queue_ok_removeListener: "queue_ok app \<Longrightarrow> queue_ok (fst (App_removeListener r app))"
proof -
  assume ok: "queue_ok app"
  let ?app1 = "app\<lparr> listeners := filter (\<lambda>l. l \<noteq> r) (listeners app) \<rparr>"
  have ok1: "queue_ok ?app1" using ok by (simp add: queue_ok_def)
  show ?thesis
  proof (cases "App_hasListener ?app1 (key (keyObjs ?app1 r))")
    case True
    with ok1 show ?thesis by (simp add: App_removeListener_def Let_def)
  next
    case False
    show ?thesis
    proof (cases "App_addOperation ((Operation_new (nextOid ?app1) Sub (Some r))\<lparr> unsub := True \<rparr>)
                    (?app1\<lparr> nextOid := nextOid ?app1 + 1 \<rparr>)")
      case (Inl e)
      with False queue_ok_sub_then(1) [OF ok1] show ?thesis
        by (simp add: App_removeListener_def Let_def Operation_sub_def)
    next
      case (Inr app3)
      from queue_ok_sub_then(2) [OF ok1 Inr] have "queue_ok app3" .
      with False Inr show ?thesis
        by (simp add: App_removeListener_def Let_def Operation_sub_def)
    qed
  qed
qed

lemma queue_ok_listen: "queue_ok app \<Longrightarrow> queue_ok (fst (Key_listen enum f r app))"
proof -
  assume ok: "queue_ok app"
  then have "queue_ok (app\<lparr> keyObjs := (keyObjs app)(r := (keyObjs app r)\<lparr> listener := Defined f \<rparr>) \<rparr>)"
    by (simp add: queue_ok_def)
  then have "queue_ok (fst (App_addListener enum r
      (app\<lparr> keyObjs := (keyObjs app)(r := (keyObjs app r)\<lparr> listener := Defined f \<rparr>) \<rparr>)))"
    by (rule queue_ok_addListener)
  moreover from ok have "queue_ok (app\<lparr> ticks := ticks app @ [ListenErrorTask r f] \<rparr>)"
    by (simp add: queue_ok_def)
  ultimately show ?thesis by (simp add: Key_listen_def)
qed

lemma queue_ok_unlisten: "queue_ok app \<Longrightarrow> queue_ok (fst (Key_unlisten r app))"
proof -
  assume ok: "queue_ok app"
  then have "queue_ok (app\<lparr> keyObjs := (keyObjs app)(r := (keyObjs app r)\<lparr> listener := Null \<rparr>) \<rparr>)"
    by (simp add: queue_ok_def)
  then show ?thesis
    unfolding Key_unlisten_def by (rule queue_ok_removeListener)
qed

lemma add_result_keeps:
  "x \<in> set (operationQueue app) \<Longrightarrow> oid x \<noteq> oid op \<Longrightarrow> x \<in> set (add_result op app)"
  by (auto simp: add_result_def split: option.splits)

lemma queue_ok_add_keeps:
  assumes ok: "queue_ok app"
    and q: "operationQueue app1 = operationQueue app"
    and op: "oid op = nextOid app"
    and x: "x \<in> set (operationQueue app)"
    and add: "App_addOperation op app1 = Inr app2"
  shows "x \<in> set (operationQueue app2)"
proof -
  from ok x have "oid x < nextOid app" by (auto simp: queue_ok_def queue_inv_def)
  with op have "oid x \<noteq> oid op" by simp
  with x q have "x \<in> set (add_result op app1)" by (simp add: add_result_keeps)
  with add show ?thesis by (auto simp: App_addOperation_eq split: if_splits)
qed

lemma queue_ok_write: "queue_ok app \<Longrightarrow> queue_ok (snd (Key_write now stringify d acl_id r app))"
proof -
  assume ok: "queue_ok app"
  let ?app1 = "app\<lparr> lastCts := max (lastCts app + 1) now, nextOid := Suc (nextOid app) \<rparr>"
  let ?op = "(Operation_new (nextOid app) Pub (Some r))\<lparr> cts := Some (max (lastCts app + 1) now) \<rparr>"
  have pub: "Operation_pub now r app = (?op, ?app1)"
    by (simp add: Operation_pub_def App_nextCts_def Let_def)
  have ok1: "queue_ok ?app1"
    by (rule queue_ok_add(1) [OF ok, of _ ?op]) simp_all
  have add: "\<And>op2 app2. oid op2 = nextOid app \<Longrightarrow> wf_op op2 \<Longrightarrow> \<not> started op2 \<Longrightarrow>
      queue_ok (snd (case App_addOperation op2 ?app1 of
                       Inl thrown \<Rightarrow> (Raised thrown, ?app1)
                     | Inr app2 \<Rightarrow> (Pending (oid op2), app2)))"
  proof -
    fix op2 :: Operation
    assume op2: "oid op2 = nextOid app" "wf_op op2" "\<not> started op2"
    show "queue_ok (snd (case App_addOperation op2 ?app1 of
                       Inl thrown \<Rightarrow> (Raised thrown, ?app1)
                     | Inr app2 \<Rightarrow> (Pending (oid op2), app2)))"
    proof (cases "App_addOperation op2 ?app1")
      case (Inl e)
      with ok1 show ?thesis by simp
    next
      case (Inr app2)
      have "queue_ok app2"
        by (rule queue_ok_add(2) [OF ok _ _ op2 Inr]) simp_all
      with Inr show ?thesis by simp
    qed
  qed
  show ?thesis
  proof (cases "typeof d \<noteq> ''string'' \<and> typeof d \<noteq> ''object'' \<and> d \<noteq> DUndefined")
    case True
    with ok1 show ?thesis
      by (cases d) (simp_all add: Key_write_def pub)
  next
    case False
    with ok1 show ?thesis
      by (cases d; cases acl_id; cases "stringify d")
         (simp_all add: Key_write_def pub Let_def add)
  qed
qed

lemma queue_ok_delete: "queue_ok app \<Longrightarrow> queue_ok (snd (Key_delete now r app))"
proof -
  assume ok: "queue_ok app"
  let ?app1 = "app\<lparr> lastCts := max (lastCts app + 1) now, nextOid := Suc (nextOid app) \<rparr>"
  let ?op = "(Operation_new (nextOid app) Pub (Some r))\<lparr> cts := Some (max (lastCts app + 1) now) \<rparr>"
  have pub: "Operation_pub now r app = (?op, ?app1)"
    by (simp add: Operation_pub_def App_nextCts_def Let_def)
  have ok1: "queue_ok ?app1"
    by (rule queue_ok_add(1) [OF ok, of _ ?op]) simp_all
  show ?thesis
  proof (cases "App_addOperation (?op\<lparr> deletePath := True \<rparr>) ?app1")
    case (Inl e)
    with ok1 show ?thesis by (simp add: Key_delete_def pub)
  next
    case (Inr app2)
    have "queue_ok app2"
      by (rule queue_ok_add(2) [OF ok _ _ _ _ _ Inr]) simp_all
    with Inr show ?thesis by (simp add: Key_delete_def pub)
  qed
qed

lemma run_task_queue [simp]:
  "operationQueue (run_task t app) = operationQueue app"
  "nextOid (run_task t app) = nextOid app"
  by (cases t; simp add: Let_def split: jsopt.splits)+

lemma queue_ok_tick: "queue_ok app \<Longrightarrow> queue_ok (App_tick app)"
  by (simp add: App_tick_def queue_ok_def split: list.splits)

lemma queue_ok_deliverToListeners:
  "queue_ok app \<Longrightarrow> queue_ok (App_deliverToListeners val app)"
  using queue_ok_only_sync [OF only_sync_deliverToListeners] by blast

text \<open>
  Processing a response keeps the invariant and keeps every operation of the queue in
  it: at most one new operation is appended.
\<close>

lemma queue_ok_process_advance:
  assumes ok: "queue_ok app" and x: "x \<in> set (operationQueue app)"
  shows "queue_ok (process_advance op response app)"
    and "x \<in> set (operationQueue (process_advance op response app))"
proof -
  obtain app1 res where loop: "advance_loop (response_vts response) [] app = (app1, res)"
    by (cases "advance_loop (response_vts response) [] app") auto
  have sync: "only_sync app app1"
    using only_sync_advance_loop [of app "response_vts response" "[]"] loop by simp
  then have ok1: "queue_ok app1" using ok queue_ok_only_sync by blast
  from sync have q1: "operationQueue app1 = operationQueue app"
    by (rule only_sync_fields)
  with x have x1: "x \<in> set (operationQueue app1)" by simp
  have "queue_ok (process_advance op response app)
      \<and> x \<in> set (operationQueue (process_advance op response app))"
  proof (cases res)
    case None
    with loop ok1 x1 show ?thesis by (simp add: process_advance_def)
  next
    case (Some vtsToFetch)
    show ?thesis
    proof (cases "keyObj op")
      case None
      with Some loop ok1 x1 show ?thesis by (simp add: process_advance_def Let_def)
    next
      case (Some r)
      show ?thesis
      proof (cases "length vtsToFetch > 0")
        case False
        have "queue_ok (app1\<lparr> rvtsDict := (rvtsDict app1)(''*.'' @ key (keyObjs app1 r)
                := compute_rvtsPrime response (rvts op)), timers := timers app1 @ [r] \<rparr>)"
          using ok1 by (simp add: queue_ok_def)
        with False Some \<open>res = Some vtsToFetch\<close> loop x1 show ?thesis
          by (simp add: process_advance_def Let_def)
      next
        case True
        let ?f = "(Operation_new (nextOid app1) Fetch (Some r))
                    \<lparr> vts := vtsToFetch, rvtsPrime := compute_rvtsPrime response (rvts op) \<rparr>"
        let ?app2 = "app1\<lparr> nextOid := Suc (nextOid app1) \<rparr>"
        have res: "process_advance op response app =
            (case App_addOperation ?f ?app2 of Inl thrown \<Rightarrow> ?app2 | Inr app3 \<Rightarrow> app3)"
          using True Some \<open>res = Some vtsToFetch\<close> loop
          by (simp add: process_advance_def Let_def Operation_fetch_def)
        show ?thesis
        proof (cases "App_addOperation ?f ?app2")
          case (Inl e)
          have "queue_ok ?app2"
            by (rule queue_ok_add(1) [OF ok1, of _ ?f]) simp_all
          with Inl res x1 show ?thesis by simp
        next
          case (Inr app3)
          have "queue_ok app3"
            by (rule queue_ok_add(2) [OF ok1 _ _ _ _ _ Inr]) simp_all
          moreover have "x \<in> set (operationQueue app3)"
            by (rule queue_ok_add_keeps [OF ok1 _ _ x1 Inr]) simp_all
          ultimately show ?thesis using Inr res by simp
        qed
      qed
    qed
  qed
  then show "queue_ok (process_advance op response app)"
    and "x \<in> set (operationQueue (process_advance op response app))"
    by simp_all
qed

lemma App_hasListener_cong:
  "listeners a = listeners b \<Longrightarrow> keyObjs a = keyObjs b \<Longrightarrow>
   App_hasListener a k = App_hasListener b k"
  by (simp add: App_hasListener_def)

lemma App_hasListener_updates [simp]:
  "App_hasListener (app\<lparr> rvtsDict := rd \<rparr>) k = App_hasListener app k"
  "App_hasListener (app\<lparr> timers := ts \<rparr>) k = App_hasListener app k"
  "App_hasListener (app\<lparr> nextOid := n \<rparr>) k = App_hasListener app k"
  "App_hasListener (app\<lparr> operationQueue := q \<rparr>) k = App_hasListener app k"
  "App_hasListener (app\<lparr> ticks := tk \<rparr>) k = App_hasListener app k"
  "App_hasListener (app\<lparr> advanceScheduled := sch \<rparr>) k = App_hasListener app k"
  "App_hasListener (app\<lparr> log := lg \<rparr>) k = App_hasListener app k"
  by (simp_all add: App_hasListener_def)

lemma queue_ok_process_fetch:
  assumes ok: "queue_ok app" and x: "x \<in> set (operationQueue app)"
  shows "queue_ok (process_fetch op response app)"
    and "x \<in> set (operationQueue (process_fetch op response app))"
proof -
  let ?app1 = "foldl (\<lambda>a val. App_deliverToListeners val a) app (response_values response)"
  have sync: "only_sync app ?app1"
    by (rule only_sync_deliver_all)
  then have ok1: "queue_ok ?app1" using ok queue_ok_only_sync by blast
  from sync have q1: "operationQueue ?app1 = operationQueue app"
    by (rule only_sync_fields)
  with x have x1: "x \<in> set (operationQueue ?app1)" by simp
  have "queue_ok (process_fetch op response app)
      \<and> x \<in> set (operationQueue (process_fetch op response app))"
  proof (cases "keyObj op")
    case None
    with ok1 x1 show ?thesis by (simp add: process_fetch_def Let_def)
  next
    case (Some r)
    let ?app2 = "?app1\<lparr> rvtsDict := (rvtsDict ?app1)(''*.'' @ key (keyObjs ?app1 r) := rvtsPrime op) \<rparr>"
    have ok2: "queue_ok ?app2" using ok1 by (simp add: queue_ok_def)
    have x2: "x \<in> set (operationQueue ?app2)" using x1 by simp
    show ?thesis
    proof (cases "App_hasListener ?app1 (key (keyObjs ?app1 r))")
      case False
      have "queue_ok (?app2\<lparr> advanceScheduled :=
          (advanceScheduled ?app2)(''*.'' @ key (keyObjs ?app1 r) \<mapsto> False) \<rparr>)"
        using ok2 by (simp add: queue_ok_def)
      with False Some x2 show ?thesis
        by (simp add: process_fetch_def Let_def)
    next
      case True
      let ?a = "Operation_new (nextOid ?app1) Advance (Some r)"
      let ?app3 = "?app2\<lparr> nextOid := Suc (nextOid ?app1) \<rparr>"
      have res: "process_fetch op response app =
          (case App_addOperation ?a ?app3 of Inl thrown \<Rightarrow> ?app3 | Inr app4 \<Rightarrow> app4)"
        using True Some
        by (simp add: process_fetch_def Let_def Operation_advance_def cong: sum.case_cong)
      show ?thesis
      proof (cases "App_addOperation ?a ?app3")
        case (Inl e)
        have "queue_ok ?app3"
          by (rule queue_ok_add(1) [OF ok2, of _ ?a]) simp_all
        with Inl res x2 show ?thesis by simp
      next
        case (Inr app4)
        have "queue_ok app4"
          by (rule queue_ok_add(2) [OF ok2 _ _ _ _ _ Inr]) simp_all
        moreover have "x \<in> set (operationQueue app4)"
          by (rule queue_ok_add_keeps [OF ok2 _ _ x2 Inr]) simp_all
        ultimately show ?thesis using Inr res by simp
      qed
    qed
  qed
  then show "queue_ok (process_fetch op response app)"
    and "x \<in> set (operationQueue (process_fetch op response app))"
    by simp_all
qed

lemma queue_ok_processResponse:
  assumes ok: "queue_ok app" and x: "x \<in> set (operationQueue app)"
  shows "queue_ok (Operation_processResponse op response err app)"
    and "x \<in> set (operationQueue (Operation_processResponse op response err app))"
proof -
  have "queue_ok (app\<lparr> acls := response_acls response \<rparr>)"
    using ok by (simp add: queue_ok_def)
  with ok queue_ok_process_advance(1) [OF ok x] queue_ok_process_fetch(1) [OF ok x]
  show "queue_ok (Operation_processResponse op response err app)"
    by (simp add: Operation_processResponse_def split: kind.splits)
  from x queue_ok_process_advance(2) [OF ok x] queue_ok_process_fetch(2) [OF ok x]
  show "x \<in> set (operationQueue (Operation_processResponse op response err app))"
    by (simp add: Operation_processResponse_def split: kind.splits)
qed

lemma queue_ok_removeOperation:
  "queue_ok app \<Longrightarrow> op \<in> set (operationQueue app) \<Longrightarrow> queue_ok (App_removeOperation op app)"
  using queue_inv_remove [of "nextOid app" app op op]
  by (simp add: queue_ok_def)

lemma queue_ok_respond: "queue_ok app \<Longrightarrow> queue_ok (Operation_respond i response err app)"
proof -
  assume ok: "queue_ok app"
  show ?thesis
  proof (cases "find (\<lambda>x. oid x = i) (operationQueue app)")
    case None
    with ok show ?thesis by (simp add: Operation_respond_def)
  next
    case (Some op)
    then have mem: "op \<in> set (operationQueue app)"
      by (auto simp: find_Some_iff)
    from queue_ok_processResponse [OF ok mem, of op response err]
    have "queue_ok (App_removeOperation op (Operation_processResponse op response err app))"
      by (simp add: queue_ok_removeOperation)
    with Some show ?thesis by (simp add: Operation_respond_def)
  qed
qed

lemma queue_ok_advanceTimer: "queue_ok app \<Longrightarrow> queue_ok (fst (App_advanceTimer app))"
proof -
  assume ok: "queue_ok app"
  show ?thesis
  proof (cases "timers app")
    case Nil
    with ok show ?thesis by (simp add: App_advanceTimer_def)
  next
    case (Cons r ts)
    let ?app1 = "app\<lparr> timers := ts \<rparr>"
    have ok1: "queue_ok ?app1" using ok by (simp add: queue_ok_def)
    show ?thesis
    proof (cases "App_hasListener app (key (keyObjs app r))")
      case False
      have "queue_ok (?app1\<lparr> advanceScheduled :=
          (advanceScheduled ?app1)(''*.'' @ key (keyObjs ?app1 r) \<mapsto> False) \<rparr>)"
        using ok1 by (simp add: queue_ok_def)
      with False Cons show ?thesis
        by (simp add: App_advanceTimer_def Let_def)
    next
      case True
      let ?a = "Operation_new (nextOid ?app1) Advance (Some r)"
      let ?app2 = "?app1\<lparr> nextOid := Suc (nextOid ?app1) \<rparr>"
      show ?thesis
      proof (cases "App_addOperation ?a ?app2")
        case (Inl e)
        have "queue_ok ?app2"
          by (rule queue_ok_add(1) [OF ok1, of _ ?a]) simp_all
        with Inl True Cons show ?thesis
          by (simp add: App_advanceTimer_def Let_def Operation_advance_def)
      next
        case (Inr app3)
        have "queue_ok app3"
          by (rule queue_ok_add(2) [OF ok1 _ _ _ _ _ Inr]) simp_all
        with Inr True Cons show ?thesis
          by (simp add: App_advanceTimer_def Let_def Operation_advance_def)
      qed
    qed
  qed
qed

lemma queue_ok_drain: "queue_ok app \<Longrightarrow> queue_ok (App_drainOperationQueue app)"
  by (simp add: App_drainOperationQueue_def queue_ok_def Let_def)

lemma queue_ok_step: "queue_ok app \<Longrightarrow> queue_ok (step app ev)"
  by (cases ev)
     (simp_all add: queue_ok_listen queue_ok_unlisten queue_ok_write queue_ok_delete
        queue_ok_tick queue_ok_deliverToListeners queue_ok_respond queue_ok_advanceTimer
        queue_ok_drain)

lemma queue_ok_foldl: "queue_ok app \<Longrightarrow> queue_ok (foldl step app evs)"
  by (induction evs arbitrary: app) (simp_all add: queue_ok_step)

lemma queue_ok_run: "queue_ok (run ks evs)"
  by (simp add: run_def queue_ok_foldl)

lemma queue_inv_head: "queue_inv n q \<Longrightarrow> head_started (with_signature s q)"
  unfolding queue_inv_def by blast

lemma find_append:
  "find P (xs @ ys) = (case find P xs of None \<Rightarrow> find P ys | Some x \<Rightarrow> Some x)"
  by (induction xs) auto

lemma head_started_later:
  "head_started (xs @ a # ys) \<Longrightarrow> b \<in> set ys \<Longrightarrow> \<not> started b"
  by (cases xs) auto

lemma queue_inv_pairs:
  assumes inv: "queue_inv n q"
    and ij: "i < j" "j < length q"
    and same: "Operation_query (q ! i) = Operation_query (q ! j)"
  shows "\<not> started (q ! j)"
proof -
  let ?s = "Operation_query (q ! j)"
  from ij have i: "i < length q" by simp
  have split: "q = take i q @ q ! i # drop (Suc i) q"
    using i by (simp add: id_take_nth_drop)
  have "q ! j = drop (Suc i) q ! (j - Suc i)"
    using ij by simp
  moreover have "j - Suc i < length (drop (Suc i) q)"
    using ij by simp
  ultimately have "q ! j \<in> set (drop (Suc i) q)"
    by (metis nth_mem)
  then have later: "q ! j \<in> set (with_signature ?s (drop (Suc i) q))"
    by (simp add: set_with_signature)
  have "with_signature ?s q =
      with_signature ?s (take i q) @ q ! i # with_signature ?s (drop (Suc i) q)"
    by (subst split) (simp add: same with_signature_Cons)
  moreover from inv have "head_started (with_signature ?s q)"
    by (rule queue_inv_head)
  ultimately show ?thesis
    using later head_started_later by metis
qed

lemma queue_inv_earliest:
  assumes inv: "queue_inv n q"
    and j: "j < length q"
    and first: "\<forall>i<j. Operation_query (q ! i) \<noteq> Operation_query (q ! j)"
  shows "started (q ! j)"
proof -
  let ?s = "Operation_query (q ! j)"
  have split: "q = take j q @ q ! j # drop (Suc j) q"
    using j by (simp add: id_take_nth_drop)
  have "\<forall>x\<in>set (take j q). Operation_query x \<noteq> ?s"
  proof
    fix x assume "x \<in> set (take j q)"
    then obtain i where "i < j" "x = q ! i"
      using j by (auto simp: in_set_conv_nth)
    with first show "Operation_query x \<noteq> ?s" by simp
  qed
  then have "with_signature ?s (take j q) = []"
    by (simp add: with_signature_def filter_empty_conv)
  then have "with_signature ?s q = q ! j # with_signature ?s (drop (Suc j) q)"
    by (subst split) (simp add: with_signature_Cons)
  moreover from inv have "head_started (with_signature ?s q)"
    by (rule queue_inv_head)
  ultimately show ?thesis by simp
qed

lemma query_matches_self [simp]: "query_matches (Operation_query op) op"
  by (simp add: query_matches_def Operation_query_def split: option.splits)

lemma App_addOperation_starts:
  assumes add: "App_addOperation op app = Inr app'"
    and fresh: "oid op \<notin> oid ` set (operationQueue app)"
    and ns: "\<not> started op"
  shows "butlast (operationQueue app') = operationQueue app"
    and "started (last (operationQueue app'))
         \<longleftrightarrow> \<not> (\<exists>x\<in>set (operationQueue app). query_matches (Operation_query op) x)"
proof -
  let ?q = "operationQueue app"
  from add have q': "operationQueue app' = add_result op app"
    by (auto simp: App_addOperation_eq split: if_splits)
  have st: "start_oid app (oid op) (?q @ [op]) = ?q @ [Operation_start app op]"
    using start_oid_absent [OF fresh, of app] by (simp add: start_oid_def)
  have "butlast (add_result op app) = ?q
      \<and> (started (last (add_result op app))
           \<longleftrightarrow> \<not> (\<exists>x\<in>set ?q. query_matches (Operation_query op) x))"
  proof (cases "find (query_matches (Operation_query op)) ?q")
    case None
    then have no: "\<not> (\<exists>x\<in>set ?q. query_matches (Operation_query op) x)"
      by (simp add: find_None_iff)
    from None have "find (query_matches (Operation_query op)) (?q @ [op]) = Some op"
      by (simp add: find_append)
    then have "add_result op app = ?q @ [Operation_start app op]"
      by (simp add: add_result_start_oid st)
    with no show ?thesis by simp
  next
    case (Some y)
    then have y: "y \<in> set ?q" "query_matches (Operation_query op) y"
      by (auto simp: find_Some_iff)
    with fresh have "oid y \<noteq> oid op" by (metis imageI)
    moreover from Some have "find (query_matches (Operation_query op)) (?q @ [op]) = Some y"
      by (simp add: find_append)
    ultimately have "add_result op app = ?q @ [op]"
      by (simp add: add_result_start_oid)
    with y ns show ?thesis by auto
  qed
  with q' show "butlast (operationQueue app') = operationQueue app"
    and "started (last (operationQueue app'))
         \<longleftrightarrow> \<not> (\<exists>x\<in>set (operationQueue app). query_matches (Operation_query op) x)"
    by simp_all
qed

text \<open>
  Operations of one kind on one key are not serialized when they come through different
  Key objects.  After three writes to \<open>a.b\<close>, two through Key object 1 and one through Key
  object 3, the queue holds three unfinished pub operations for the key \<open>a.b\<close>; the first
  and the third are both started.
\<close>

theorem same_key_two_objects_both_started:
  "map (\<lambda>x. (kind x,
              map_option (\<lambda>r. key (keyObjs (run example_keys example_writes) r)) (keyObj x),
              keyObj x, started x))
     (operationQueue (run example_keys example_writes))
   = [(Pub, Some ''a.b'', Some 1, True),
      (Pub, Some ''a.b'', Some 1, False),
      (Pub, Some ''a.b'', Some 3, True)]"
  by code_simp

text \<open>
  C3, as the code has it.  The query signature of an operation is its kind and its Key
  object (none for getAcls); two Key objects are two signatures even when their key
  strings are equal.  In every state a run of the client reaches, of two operations of
  the queue with the same query signature the one enqueued later is not started (the
  queue holds the operations enqueued and not yet finished, in the order they were
  enqueued), and the earliest operation of each signature is started.  \<open>addOperation\<close>
  appends the operation and starts it exactly when no operation already in the queue
  matches its query; \<open>removeOperation\<close> takes the operation out and starts the first
  remaining operation matching its query.
\<close>

theorem operations_serialized:
  "(\<forall>i j. i < j \<and> j < length (operationQueue (run ks evs))
          \<and> Operation_query (operationQueue (run ks evs) ! i)
              = Operation_query (operationQueue (run ks evs) ! j)
      \<longrightarrow> \<not> started (operationQueue (run ks evs) ! j))
   \<and> (\<forall>j. j < length (operationQueue (run ks evs))
          \<and> (\<forall>i<j. Operation_query (operationQueue (run ks evs) ! i)
                    \<noteq> Operation_query (operationQueue (run ks evs) ! j))
      \<longrightarrow> started (operationQueue (run ks evs) ! j))
   \<and> (\<forall>op app app'. App_addOperation op app = Inr app'
          \<and> oid op \<notin> oid ` set (operationQueue app) \<and> \<not> started op
      \<longrightarrow> butlast (operationQueue app') = operationQueue app
          \<and> (started (last (operationQueue app'))
               \<longleftrightarrow> \<not> (\<exists>x\<in>set (operationQueue app). query_matches (Operation_query op) x)))
   \<and> (\<forall>op app. operationQueue (App_removeOperation op app) =
          (case find (query_matches (Operation_query op))
                  (filter (\<lambda>x. oid x \<noteq> oid op) (operationQueue app)) of
             Some next \<Rightarrow>
               start_oid app (oid next) (filter (\<lambda>x. oid x \<noteq> oid op) (operationQueue app))
           | None \<Rightarrow> filter (\<lambda>x. oid x \<noteq> oid op) (operationQueue app)))"
proof -
  have inv: "queue_inv (nextOid (run ks evs)) (operationQueue (run ks evs))"
    using queue_ok_run [of ks evs] by (simp add: queue_ok_def)
  have pairs: "\<forall>i j. i < j \<and> j < length (operationQueue (run ks evs))
          \<and> Operation_query (operationQueue (run ks evs) ! i)
              = Operation_query (operationQueue (run ks evs) ! j)
      \<longrightarrow> \<not> started (operationQueue (run ks evs) ! j)"
    using queue_inv_pairs [OF inv] by blast
  have first: "\<forall>j. j < length (operationQueue (run ks evs))
          \<and> (\<forall>i<j. Operation_query (operationQueue (run ks evs) ! i)
                    \<noteq> Operation_query (operationQueue (run ks evs) ! j))
      \<longrightarrow> started (operationQueue (run ks evs) ! j)"
    using queue_inv_earliest [OF inv] by blast
  have add: "\<forall>op (app :: 'c App) app'. App_addOperation op app = Inr app'
          \<and> oid op \<notin> oid ` set (operationQueue app) \<and> \<not> started op
      \<longrightarrow> butlast (operationQueue app') = operationQueue app
          \<and> (started (last (operationQueue app'))
               \<longleftrightarrow> \<not> (\<exists>x\<in>set (operationQueue app). query_matches (Operation_query op) x))"
    using App_addOperation_starts by blast
  have remove: "\<forall>op (app :: 'd App). operationQueue (App_removeOperation op app) =
          (case find (query_matches (Operation_query op))
                  (filter (\<lambda>x. oid x \<noteq> oid op) (operationQueue app)) of
             Some next \<Rightarrow>
               start_oid app (oid next) (filter (\<lambda>x. oid x \<noteq> oid op) (operationQueue app))
           | None \<Rightarrow> filter (\<lambda>x. oid x \<noteq> oid op) (operationQueue app))"
    by (simp add: remove_result_start_oid)
  from pairs first add remove show ?thesis by blast
qed

theorem operations_serialized_witness:
  "length (operationQueue (run example_keys example_writes)) = 3
   \<and> Operation_query (operationQueue (run example_keys example_writes) ! 0)
       = Operation_query (operationQueue (run example_keys example_writes) ! 1)
   \<and> \<not> started (operationQueue (run example_keys example_writes) ! 1)
   \<and> started (operationQueue (run example_keys example_writes) ! 0)
   \<and> started (operationQueue (run example_keys example_writes) ! 2)
   \<and> map started (operationQueue (run example_keys (example_writes @ [Respond 0 happy None])))
       = [True, True]"
proof -
  let ?q = "operationQueue (run example_keys example_writes)"
  have len: "length ?q = 3" by code_simp
  have same: "Operation_query (?q ! 0) = Operation_query (?q ! 1)" by code_simp
  have d02: "Operation_query (?q ! 0) \<noteq> Operation_query (?q ! 2)" by code_simp
  have d12: "Operation_query (?q ! 1) \<noteq> Operation_query (?q ! 2)" by code_simp
  note inst = operations_serialized [of example_keys example_writes]
  from inst have pairs: "\<And>i j. i < j \<Longrightarrow> j < length ?q \<Longrightarrow>
      Operation_query (?q ! i) = Operation_query (?q ! j) \<Longrightarrow> \<not> started (?q ! j)"
    by blast
  from inst have first: "\<And>j. j < length ?q \<Longrightarrow>
      \<forall>i<j. Operation_query (?q ! i) \<noteq> Operation_query (?q ! j) \<Longrightarrow> started (?q ! j)"
    by blast
  have s1: "\<not> started (?q ! 1)"
    by (rule pairs [of 0 1]) (simp_all add: len same)
  have s0: "started (?q ! 0)"
    by (rule first [of 0]) (simp_all add: len)
  have "\<forall>i<2. Operation_query (?q ! i) \<noteq> Operation_query (?q ! 2)"
    using d02 d12 by (auto simp: less_Suc_eq numeral_2_eq_2)
  then have s2: "started (?q ! 2)"
    by (intro first [of 2]) (simp_all add: len)
  have after: "map started (operationQueue (run example_keys (example_writes @ [Respond 0 happy None])))
       = [True, True]"
    by code_simp
  from len same s1 s0 s2 after show ?thesis by blast
qed

section \<open>Monotonic delivery\<close>

lemma observed_Nil [simp]: "observed [] r k = []"
  by (simp add: observed_def)

lemma observed_snoc [simp]: "observed (evs @ [ev]) r k = observe r k (observed evs r k) ev"
  by (simp add: observed_def)

lemma observe_simps [simp]:
  "observe r k acc (ListenerAdded r') = (if r' = r then [] else acc)"
  "observe r k acc (Called r' f e (Some val)) =
     (if r' = r \<and> value_key val = k then acc @ [value_vts val] else acc)"
  "observe r k acc (Called r' f e None) = acc"
  "observe r k acc (Thrown m) = acc"
  "observe r k acc QueueDrained = acc"
  by (simp_all add: observe_def)

lemma delivery_inv_new [simp]: "delivery_inv (App_new ks)"
  by (simp add: delivery_inv_def App_new_def)

lemma delivery_inv_cong:
  assumes "\<And>r k. observed (log b) r k = observed (log a) r k"
    and "\<And>r. latest (keyObjs b r) = latest (keyObjs a r)"
  shows "delivery_inv b = delivery_inv a"
  using assms by (simp add: delivery_inv_def)

text \<open>What each function leaves of the Key objects and of the log.\<close>

lemma addOperation_obs:
  "App_addOperation op app = Inr app' \<Longrightarrow> keyObjs app' = keyObjs app \<and> log app' = log app"
  by (auto simp: App_addOperation_eq split: if_splits)

lemma add_case_obs [simp]:
  "keyObjs (case App_addOperation op app of Inl thrown \<Rightarrow> app | Inr app2 \<Rightarrow> app2) = keyObjs app"
  "log (case App_addOperation op app of Inl thrown \<Rightarrow> app | Inr app2 \<Rightarrow> app2) = log app"
  by (simp_all add: App_addOperation_eq)

lemma startAdvance_obs [simp]:
  "keyObjs (fst (App_startAdvance r app)) = keyObjs app"
  "log (fst (App_startAdvance r app)) = log app"
  by (simp_all add: App_startAdvance_def Operation_advance_def App_addOperation_eq Let_def)

lemma removeListener_obs [simp]:
  "keyObjs (fst (App_removeListener r app)) = keyObjs app"
  "log (fst (App_removeListener r app)) = log app"
  by (simp_all add: App_removeListener_def Operation_sub_def App_addOperation_eq Let_def)

lemma write_obs [simp]:
  "keyObjs (snd (Key_write now stringify d acl_id r app)) = keyObjs app"
  "log (snd (Key_write now stringify d acl_id r app)) = log app"
  by (cases d; cases acl_id; cases "stringify d";
      simp add: Key_write_def Operation_pub_def App_nextCts_def App_addOperation_eq Let_def)+

lemma delete_obs [simp]:
  "keyObjs (snd (Key_delete now r app)) = keyObjs app"
  "log (snd (Key_delete now r app)) = log app"
  by (simp_all add: Key_delete_def Operation_pub_def App_nextCts_def App_addOperation_eq Let_def)

lemma deliverToListeners_obs [simp]:
  "keyObjs (App_deliverToListeners val app) = keyObjs app"
  "log (App_deliverToListeners val app) = log app"
  by (simp_all add: App_deliverToListeners_eq)

lemma removeOperation_obs [simp]:
  "keyObjs (App_removeOperation op app) = keyObjs app"
  "observed (log (App_removeOperation op app)) r k = observed (log app) r k"
  by (simp_all add: App_removeOperation_def start_in_queue_def Let_def split: option.splits)

lemma process_advance_obs [simp]:
  "keyObjs (process_advance op response app) = keyObjs app"
  "log (process_advance op response app) = log app"
proof -
  obtain app1 res where loop: "advance_loop (response_vts response) [] app = (app1, res)"
    by (cases "advance_loop (response_vts response) [] app") auto
  have sync: "only_sync app app1"
    using only_sync_advance_loop [of app "response_vts response" "[]"] loop by simp
  have k: "keyObjs app1 = keyObjs app" and l: "log app1 = log app"
    using only_sync_fields [OF sync] by simp_all
  show "keyObjs (process_advance op response app) = keyObjs app"
    using k loop
    by (simp add: process_advance_def Operation_fetch_def App_addOperation_eq Let_def
          split: option.splits)
  show "log (process_advance op response app) = log app"
    using l loop
    by (simp add: process_advance_def Operation_fetch_def App_addOperation_eq Let_def
          split: option.splits)
qed

lemma process_fetch_obs [simp]:
  "keyObjs (process_fetch op response app) = keyObjs app"
  "log (process_fetch op response app) = log app"
proof -
  let ?app1 = "foldl (\<lambda>a val. App_deliverToListeners val a) app (response_values response)"
  have sync: "only_sync app ?app1"
    by (rule only_sync_deliver_all)
  have k: "keyObjs ?app1 = keyObjs app" and l: "log ?app1 = log app"
    using only_sync_fields [OF sync] by simp_all
  show "keyObjs (process_fetch op response app) = keyObjs app"
    using k
    by (simp add: process_fetch_def Operation_advance_def App_addOperation_eq Let_def
          split: option.splits)
  show "log (process_fetch op response app) = log app"
    using l
    by (simp add: process_fetch_def Operation_advance_def App_addOperation_eq Let_def
          split: option.splits)
qed

lemma processResponse_obs [simp]:
  "keyObjs (Operation_processResponse op response err app) = keyObjs app"
  "log (Operation_processResponse op response err app) = log app"
  by (simp_all add: Operation_processResponse_def split: kind.splits)

lemma respond_obs [simp]:
  "keyObjs (Operation_respond i response err app) = keyObjs app"
  "observed (log (Operation_respond i response err app)) r k = observed (log app) r k"
  by (simp_all add: Operation_respond_def split: option.splits)

lemma advanceTimer_obs [simp]:
  "keyObjs (fst (App_advanceTimer app)) = keyObjs app"
  "log (fst (App_advanceTimer app)) = log app"
  by (simp_all add: App_advanceTimer_def Operation_advance_def App_addOperation_eq Let_def
        split: list.splits)

lemma drain_obs [simp]:
  "keyObjs (App_drainOperationQueue app) = keyObjs app"
  "observed (log (App_drainOperationQueue app)) r k = observed (log app) r k"
  by (simp_all add: App_drainOperationQueue_def Let_def)

lemma addListener_obs:
  "keyObjs (fst (App_addListener enum r app)) =
     (if r \<in> set (listeners app) then keyObjs app
      else (keyObjs app)(r := (keyObjs app r)\<lparr> latest := Map.empty \<rparr>))"
  "log (fst (App_addListener enum r app)) =
     (if r \<in> set (listeners app) then log app else log app @ [ListenerAdded r])"
proof -
  let ?app1 = "app\<lparr> listeners := listeners app @ [r],
                   keyObjs := (keyObjs app)(r := (keyObjs app r)\<lparr> latest := Map.empty \<rparr>),
                   log := log app @ [ListenerAdded r] \<rparr>"
  let ?app2 = "?app1\<lparr> ticks := ticks ?app1 @ map (DeliverTask r) (primed ?app1 r enum) \<rparr>"
  have res: "r \<notin> set (listeners app) \<Longrightarrow> App_addListener enum r app =
       (if \<not> App_hasListener app (key (keyObjs app r)) then
          (case Operation_sub r ?app2 of
             (op, app3) \<Rightarrow>
               (case App_addOperation op app3 of
                  Inl err \<Rightarrow> (app3, Some err)
                | Inr app4 \<Rightarrow> App_startAdvance r app4))
        else App_startAdvance r ?app2)"
    by (simp add: App_addListener_def Let_def priming_loop)
  show "keyObjs (fst (App_addListener enum r app)) =
     (if r \<in> set (listeners app) then keyObjs app
      else (keyObjs app)(r := (keyObjs app r)\<lparr> latest := Map.empty \<rparr>))"
  proof (cases "r \<in> set (listeners app)")
    case True
    then show ?thesis by (simp add: App_addListener_def)
  next
    case False
    then show ?thesis
      by (simp add: res Operation_sub_def App_addOperation_eq)
  qed
  show "log (fst (App_addListener enum r app)) =
     (if r \<in> set (listeners app) then log app else log app @ [ListenerAdded r])"
  proof (cases "r \<in> set (listeners app)")
    case True
    then show ?thesis by (simp add: App_addListener_def)
  next
    case False
    then show ?thesis
      by (simp add: res Operation_sub_def App_addOperation_eq)
  qed
qed

lemma delivery_inv_addListener:
  "delivery_inv app \<Longrightarrow> delivery_inv (fst (App_addListener enum r app))"
  by (auto simp: delivery_inv_def addListener_obs)

lemma delivery_inv_listen: "delivery_inv app \<Longrightarrow> delivery_inv (fst (Key_listen enum f r app))"
proof -
  assume inv: "delivery_inv app"
  let ?app0 = "app\<lparr> keyObjs := (keyObjs app)(r := (keyObjs app r)\<lparr> listener := Defined f \<rparr>) \<rparr>"
  have "delivery_inv ?app0 = delivery_inv app"
    by (rule delivery_inv_cong) simp_all
  with inv have "delivery_inv (fst (App_addListener enum r ?app0))"
    by (simp add: delivery_inv_addListener)
  moreover have "delivery_inv (app\<lparr> ticks := ticks app @ [ListenErrorTask r f] \<rparr>) = delivery_inv app"
    by (rule delivery_inv_cong) simp_all
  ultimately show ?thesis using inv by (simp add: Key_listen_def)
qed

lemma delivery_inv_unlisten: "delivery_inv app \<Longrightarrow> delivery_inv (fst (Key_unlisten r app))"
proof -
  assume inv: "delivery_inv app"
  have "delivery_inv (fst (Key_unlisten r app)) = delivery_inv app"
    by (rule delivery_inv_cong) (simp_all add: Key_unlisten_def)
  with inv show ?thesis by simp
qed

text \<open>
  The delivery task: it calls back only with a vts above the recorded one, and records the
  new vts before it calls.
\<close>

lemma run_task_deliver:
  "run_task (DeliverTask r val) app =
     (if listener (keyObjs app r) \<noteq> Null
         \<and> or_zero (latest (keyObjs app r) (value_key val)) < value_vts val
      then app\<lparr> keyObjs := (keyObjs app)
                   (r := (keyObjs app r)\<lparr> latest := (latest (keyObjs app r))
                                                (value_key val \<mapsto> value_vts val) \<rparr>),
                 log := log app @
                   [case listener (keyObjs app r) of
                      Defined f \<Rightarrow> Called r f NoError (Some val)
                    | _ \<Rightarrow> Thrown ''TypeError: self.listener is not a function''] \<rparr>
      else app)"
  by (simp add: Let_def split: jsopt.splits)

declare run_task.simps(1) [simp del]

lemma delivery_inv_run_task: "delivery_inv app \<Longrightarrow> delivery_inv (run_task t app)"
proof (cases t)
  case (ListenErrorTask r f)
  assume inv: "delivery_inv app"
  have "delivery_inv (run_task t app) = delivery_inv app"
    by (rule delivery_inv_cong) (simp_all add: ListenErrorTask split: jsopt.splits)
  with inv show ?thesis by simp
next
  case (DeliverTask r val)
  assume inv: "delivery_inv app"
  show ?thesis
  proof (cases "listener (keyObjs app r) \<noteq> Null
         \<and> or_zero (latest (keyObjs app r) (value_key val)) < value_vts val")
    case False
    then have "run_task (DeliverTask r val) app = app"
      by (subst run_task_deliver) (simp only: if_False)
    with inv show ?thesis by (simp add: DeliverTask)
  next
    case True
    then have lt: "or_zero (latest (keyObjs app r) (value_key val)) < value_vts val" by simp
    from inv have old: "\<And>r' k'. sorted_wrt (<) (observed (log app) r' k')"
      "\<And>r' k' x. x \<in> set (observed (log app) r' k') \<Longrightarrow>
          \<exists>m. latest (keyObjs app r') k' = Some m \<and> x \<le> m"
      unfolding delivery_inv_def by blast+
    have below: "\<And>x. x \<in> set (observed (log app) r (value_key val)) \<Longrightarrow> x < value_vts val"
    proof -
      fix x assume "x \<in> set (observed (log app) r (value_key val))"
      from old(2) [OF this]
      obtain m where "latest (keyObjs app r) (value_key val) = Some m" "x \<le> m"
        by blast
      with lt show "x < value_vts val" by (simp add: or_zero_def)
    qed
    show ?thesis
      unfolding delivery_inv_def
    proof (intro allI conjI ballI)
      fix r' k'
      show "sorted_wrt (<) (observed (log (run_task t app)) r' k')"
        using True old(1) [of r' k'] below
        by (cases "listener (keyObjs app r)")
           (auto simp: DeliverTask run_task_deliver sorted_wrt_append)
    next
      fix r' k' x
      assume x: "x \<in> set (observed (log (run_task t app)) r' k')"
      show "\<exists>m. latest (keyObjs (run_task t app) r') k' = Some m \<and> x \<le> m"
      proof (cases "r' = r \<and> k' = value_key val")
        case same: True
        from x True same have "x \<in> set (observed (log app) r (value_key val)) \<or> x = value_vts val"
          by (cases "listener (keyObjs app r)")
             (auto simp: DeliverTask run_task_deliver split: if_splits)
        then have "x \<le> value_vts val" using below [of x] by auto
        with True same show ?thesis
          by (simp add: DeliverTask run_task_deliver)
      next
        case other: False
        from x True other have "x \<in> set (observed (log app) r' k')"
          by (cases "listener (keyObjs app r)")
             (auto simp: DeliverTask run_task_deliver split: if_splits)
        from old(2) [OF this] True other show ?thesis
          by (auto simp: DeliverTask run_task_deliver)
      qed
    qed
  qed
qed

lemma delivery_inv_tick: "delivery_inv app \<Longrightarrow> delivery_inv (App_tick app)"
proof -
  assume inv: "delivery_inv app"
  show ?thesis
  proof (cases "ticks app")
    case Nil
    with inv show ?thesis by (simp add: App_tick_def)
  next
    case (Cons t ts)
    have "delivery_inv (app\<lparr> ticks := ts \<rparr>) = delivery_inv app"
      by (rule delivery_inv_cong) simp_all
    with inv have "delivery_inv (run_task t (app\<lparr> ticks := ts \<rparr>))"
      by (simp add: delivery_inv_run_task)
    with Cons show ?thesis by (simp add: App_tick_def)
  qed
qed

lemma delivery_inv_step: "delivery_inv app \<Longrightarrow> delivery_inv (step app ev)"
proof (cases ev)
  case (Listen r f enum)
  assume "delivery_inv app"
  then show ?thesis by (simp add: Listen delivery_inv_listen)
next
  case (Unlisten r)
  assume "delivery_inv app"
  then show ?thesis by (simp add: Unlisten delivery_inv_unlisten)
next
  case Tick
  assume "delivery_inv app"
  then show ?thesis by (simp add: Tick delivery_inv_tick)
next
  case (Write now stringify d acl_id r)
  assume inv: "delivery_inv app"
  have "delivery_inv (step app ev) = delivery_inv app"
    by (rule delivery_inv_cong) (simp_all add: Write)
  with inv show ?thesis by simp
next
  case (Delete now r)
  assume inv: "delivery_inv app"
  have "delivery_inv (step app ev) = delivery_inv app"
    by (rule delivery_inv_cong) (simp_all add: Delete)
  with inv show ?thesis by simp
next
  case (Data val)
  assume inv: "delivery_inv app"
  have "delivery_inv (step app ev) = delivery_inv app"
    by (rule delivery_inv_cong) (simp_all add: Data)
  with inv show ?thesis by simp
next
  case (Respond i response err)
  assume inv: "delivery_inv app"
  have "delivery_inv (step app ev) = delivery_inv app"
    by (rule delivery_inv_cong) (simp_all add: Respond)
  with inv show ?thesis by simp
next
  case Timer
  assume inv: "delivery_inv app"
  have "delivery_inv (step app ev) = delivery_inv app"
    by (rule delivery_inv_cong) (simp_all add: Timer)
  with inv show ?thesis by simp
next
  case Drain
  assume inv: "delivery_inv app"
  have "delivery_inv (step app ev) = delivery_inv app"
    by (rule delivery_inv_cong) (simp_all add: Drain)
  with inv show ?thesis by simp
qed

lemma delivery_inv_foldl: "delivery_inv app \<Longrightarrow> delivery_inv (foldl step app evs)"
  by (induction evs arbitrary: app) (simp_all add: delivery_inv_step)

lemma delivery_inv_run: "delivery_inv (run ks evs)"
  by (simp add: run_def delivery_inv_foldl)

text \<open>
  C2.  In every state a run of the client reaches, the vts values that the callback of a
  Key object has been given for a concrete key since the object was registered increase
  strictly, so no vts is given twice.  \<open>deliverToListeners\<close> drops (leaves the state as it
  is) a value whose vts is not above the vts stored in \<open>memoryDB\<close> for its key, and the
  delivery task calls the listener with \<open>(null, value)\<close> exactly when the value's vts is
  above the vts recorded for the key, the record being updated in the same task.
\<close>

theorem deliveries_strictly_increasing:
  "sorted_wrt (<) (observed (log (run ks evs)) r k)
   \<and> distinct (observed (log (run ks evs)) r k)
   \<and> (\<forall>val lv app. memoryDB app (value_key val) = Some lv \<and> value_vts val \<le> value_vts lv
        \<longrightarrow> App_deliverToListeners val app = app)
   \<and> (\<forall>val app r' f. listener (keyObjs app r') = Defined f \<longrightarrow>
        run_task (DeliverTask r' val) app =
          (if or_zero (latest (keyObjs app r') (value_key val)) < value_vts val
           then app\<lparr> keyObjs := (keyObjs app)
                        (r' := (keyObjs app r')\<lparr> latest := (latest (keyObjs app r'))
                                                       (value_key val \<mapsto> value_vts val) \<rparr>),
                      log := log app @ [Called r' f NoError (Some val)] \<rparr>
           else app))"
proof -
  have "delivery_inv (run ks evs)" by (rule delivery_inv_run)
  then have inc: "sorted_wrt (<) (observed (log (run ks evs)) r k)"
    unfolding delivery_inv_def by blast
  then have dist: "distinct (observed (log (run ks evs)) r k)"
    by (simp add: strict_sorted_iff)
  have drop: "\<forall>val lv (app :: 'c App).
      memoryDB app (value_key val) = Some lv \<and> value_vts val \<le> value_vts lv
        \<longrightarrow> App_deliverToListeners val app = app"
    by (simp add: App_deliverToListeners_eq)
  have task: "\<forall>val (app :: 'd App) r' f. listener (keyObjs app r') = Defined f \<longrightarrow>
        run_task (DeliverTask r' val) app =
          (if or_zero (latest (keyObjs app r') (value_key val)) < value_vts val
           then app\<lparr> keyObjs := (keyObjs app)
                        (r' := (keyObjs app r')\<lparr> latest := (latest (keyObjs app r'))
                                                       (value_key val \<mapsto> value_vts val) \<rparr>),
                      log := log app @ [Called r' f NoError (Some val)] \<rparr>
           else app)"
    by (simp add: run_task_deliver)
  from inc dist drop task show ?thesis by blast
qed

theorem deliveries_strictly_increasing_witness:
  "observed (log (run example_keys example_deliveries)) 0 ''a.b'' = [5, 7]
   \<and> sorted_wrt (<) (observed (log (run example_keys example_deliveries)) 0 ''a.b'')
   \<and> map_option value_vts (memoryDB (run example_keys example_deliveries) ''a.b'') = Some 7
   \<and> memoryDB (run example_keys (take 2 example_deliveries)) ''a.b'' = Some (example_value True 5)
   \<and> App_deliverToListeners (example_value True 3) (run example_keys (take 2 example_deliveries))
       = run example_keys (take 2 example_deliveries)
   \<and> observed (log (run example_keys
         (example_deliveries @ [Unlisten 0, Listen 0 (Callback 7 Undefined) [''a.b''], Tick])))
        0 ''a.b'' = [7]"
proof -
  have o: "observed (log (run example_keys example_deliveries)) 0 ''a.b'' = [5, 7]"
    by code_simp
  have m: "map_option value_vts (memoryDB (run example_keys example_deliveries) ''a.b'') = Some 7"
    by code_simp
  have again: "observed (log (run example_keys
         (example_deliveries @ [Unlisten 0, Listen 0 (Callback 7 Undefined) [''a.b''], Tick])))
        0 ''a.b'' = [7]"
    by code_simp
  note inst = deliveries_strictly_increasing [of example_keys example_deliveries 0 "''a.b''"]
  from inst
  have s: "sorted_wrt (<) (observed (log (run example_keys example_deliveries)) 0 ''a.b'')"
    by blast
  let ?app = "run example_keys (take 2 example_deliveries) :: unit App"
  have db: "memoryDB ?app ''a.b'' = Some (example_value True 5)"
    by code_simp
  have k: "value_key (example_value True 3) = ''a.b''"
    and v: "value_vts (example_value True 3) \<le> value_vts (example_value True 5)"
    by (simp_all add: example_value_def)
  from inst have "\<And>val lv (app :: unit App).
      memoryDB app (value_key val) = Some lv \<Longrightarrow> value_vts val \<le> value_vts lv
        \<Longrightarrow> App_deliverToListeners val app = app"
    by blast
  from this [of ?app "example_value True 3" "example_value True 5"] db k v
  have d: "App_deliverToListeners (example_value True 3) ?app = ?app" by simp
  from o s m db d again show ?thesis by blast
qed

section \<open>Processing an advance response\<close>

lemma sync_inv_consistent: "sync_inv app \<Longrightarrow> cache_consistent app"
  by (fastforce simp: sync_inv_def cache_consistent_def)

lemma sync_inv_new [simp]: "sync_inv (App_new ks)"
  by (simp add: sync_inv_def App_new_def)

lemma sync_inv_cong:
  "memoryDB b = memoryDB a \<Longrightarrow> vtsIndex b = vtsIndex a \<Longrightarrow> sync_inv b = sync_inv a"
  by (simp add: sync_inv_def)

lemma sync_inv_deliverToListeners:
  assumes inv: "sync_inv app"
  shows "sync_inv (App_deliverToListeners val app)"
proof (cases "value_vts val \<le> (case memoryDB app (value_key val) of None \<Rightarrow> 0 | Some lv \<Rightarrow> value_vts lv)")
  case True
  with inv show ?thesis by (simp add: App_deliverToListeners_eq)
next
  case False
  from inv have keys: "\<And>k v. memoryDB app k = Some v \<Longrightarrow> value_key v = k"
    and idx: "\<And>v k. vtsIndex app v = Some k \<Longrightarrow> \<exists>w. memoryDB app k = Some w \<and> v \<le> value_vts w"
    unfolding sync_inv_def by blast+
  have newer: "\<And>w. memoryDB app (value_key val) = Some w \<Longrightarrow> value_vts w < value_vts val"
    using False by auto
  have "sync_inv (app\<lparr> memoryDB := (memoryDB app)(value_key val \<mapsto> val),
                      vtsIndex := (vtsIndex app)(value_vts val \<mapsto> value_key val),
                      ticks := ticks app @ map (\<lambda>r. DeliverTask r val)
                            (filter (\<lambda>r. Key_matches (keyObjs app r) (value_key val))
                               (listeners app)) \<rparr>)"
    unfolding sync_inv_def
  proof (intro conjI allI impI)
    fix k v
    assume "memoryDB (app\<lparr> memoryDB := (memoryDB app)(value_key val \<mapsto> val),
                      vtsIndex := (vtsIndex app)(value_vts val \<mapsto> value_key val),
                      ticks := ticks app @ map (\<lambda>r. DeliverTask r val)
                            (filter (\<lambda>r. Key_matches (keyObjs app r) (value_key val))
                               (listeners app)) \<rparr>) k = Some v"
    then show "value_key v = k"
      using keys by (auto split: if_splits)
  next
    fix v k
    assume a: "vtsIndex (app\<lparr> memoryDB := (memoryDB app)(value_key val \<mapsto> val),
                      vtsIndex := (vtsIndex app)(value_vts val \<mapsto> value_key val),
                      ticks := ticks app @ map (\<lambda>r. DeliverTask r val)
                            (filter (\<lambda>r. Key_matches (keyObjs app r) (value_key val))
                               (listeners app)) \<rparr>) v = Some k"
    show "\<exists>w. memoryDB (app\<lparr> memoryDB := (memoryDB app)(value_key val \<mapsto> val),
                      vtsIndex := (vtsIndex app)(value_vts val \<mapsto> value_key val),
                      ticks := ticks app @ map (\<lambda>r. DeliverTask r val)
                            (filter (\<lambda>r. Key_matches (keyObjs app r) (value_key val))
                               (listeners app)) \<rparr>) k = Some w \<and> v \<le> value_vts w"
    proof (cases "v = value_vts val")
      case True
      with a show ?thesis by simp
    next
      case False
      with a have "vtsIndex app v = Some k" by simp
      from idx [OF this] obtain w where w: "memoryDB app k = Some w" "v \<le> value_vts w"
        by blast
      show ?thesis
      proof (cases "k = value_key val")
        case True
        with w newer [of w] show ?thesis by simp
      next
        case False
        with w show ?thesis by simp
      qed
    qed
  qed
  with False show ?thesis by (simp add: App_deliverToListeners_eq)
qed

text \<open>
  On a consistent cache the loop over the returned vts leaves the state as it is (handing
  the cached value to \<open>deliverToListeners\<close> changes nothing, since its vts is not above the
  stored one) and collects, in order, the vts that need a fetch.
\<close>

lemma deliver_cached_dropped:
  "cache_consistent app \<Longrightarrow> memoryDB app k = Some val \<Longrightarrow> App_deliverToListeners val app = app"
  by (simp add: App_deliverToListeners_eq cache_consistent_def)

lemma advance_loop_consistent:
  "cache_consistent app \<Longrightarrow>
   advance_loop vs acc app = (app, Some (acc @ filter (needs_fetch app) vs))"
proof (induction vs arbitrary: acc)
  case Nil
  show ?case by simp
next
  case (Cons v vs)
  show ?case
  proof (cases "vtsIndex app v")
    case None
    then show ?thesis using Cons by (simp add: needs_fetch_def)
  next
    case (Some k)
    with Cons.prems have "memoryDB app k \<noteq> None"
      unfolding cache_consistent_def by blast
    then obtain val where val: "memoryDB app k = Some val"
      by blast
    with Some Cons show ?thesis
      by (simp add: needs_fetch_def deliver_cached_dropped)
  qed
qed

lemma Max_insert_max:
  "finite S \<Longrightarrow> Max (insert (max a v) S) = Max (insert a (insert v S))"
  for a v :: int
  using Max_insert by fastforce

lemma reduce_max_Some: "reduce_max (Some a) vs = Some (Max (insert a (set vs)))"
  unfolding reduce_max_def
proof (induction vs arbitrary: a)
  case Nil
  show ?case by simp
next
  case (Cons v vs)
  have "foldl (\<lambda>mx val. case mx of None \<Rightarrow> None
                      | Some m \<Rightarrow> if val > m then Some val else Some m) (Some a) (v # vs)
      = foldl (\<lambda>mx val. case mx of None \<Rightarrow> None
                      | Some m \<Rightarrow> if val > m then Some val else Some m) (Some (max a v)) vs"
    by (simp add: max_def)
  also have "\<dots> = Some (Max (insert (max a v) (set vs)))"
    by (rule Cons.IH)
  also have "Max (insert (max a v) (set vs)) = Max (insert a (set (v # vs)))"
    by (simp add: Max_insert_max)
  finally show ?case .
qed

text \<open>What each function leaves of the cache.\<close>

lemma add_case_sync [simp]:
  "memoryDB (case App_addOperation op app of Inl thrown \<Rightarrow> app | Inr app2 \<Rightarrow> app2) = memoryDB app"
  "vtsIndex (case App_addOperation op app of Inl thrown \<Rightarrow> app | Inr app2 \<Rightarrow> app2) = vtsIndex app"
  by (simp_all add: App_addOperation_eq)

lemma startAdvance_sync [simp]:
  "memoryDB (fst (App_startAdvance r app)) = memoryDB app"
  "vtsIndex (fst (App_startAdvance r app)) = vtsIndex app"
  by (simp_all add: App_startAdvance_def Operation_advance_def App_addOperation_eq Let_def)

lemma removeListener_sync [simp]:
  "memoryDB (fst (App_removeListener r app)) = memoryDB app"
  "vtsIndex (fst (App_removeListener r app)) = vtsIndex app"
  by (simp_all add: App_removeListener_def Operation_sub_def App_addOperation_eq Let_def)

lemma write_sync [simp]:
  "memoryDB (snd (Key_write now stringify d acl_id r app)) = memoryDB app"
  "vtsIndex (snd (Key_write now stringify d acl_id r app)) = vtsIndex app"
  by (cases d; cases acl_id; cases "stringify d";
      simp add: Key_write_def Operation_pub_def App_nextCts_def App_addOperation_eq Let_def)+

lemma delete_sync [simp]:
  "memoryDB (snd (Key_delete now r app)) = memoryDB app"
  "vtsIndex (snd (Key_delete now r app)) = vtsIndex app"
  by (simp_all add: Key_delete_def Operation_pub_def App_nextCts_def App_addOperation_eq Let_def)

lemma removeOperation_sync [simp]:
  "memoryDB (App_removeOperation op app) = memoryDB app"
  "vtsIndex (App_removeOperation op app) = vtsIndex app"
  by (simp_all add: App_removeOperation_def start_in_queue_def Let_def split: option.splits)

lemma advanceTimer_sync [simp]:
  "memoryDB (fst (App_advanceTimer app)) = memoryDB app"
  "vtsIndex (fst (App_advanceTimer app)) = vtsIndex app"
  by (simp_all add: App_advanceTimer_def Operation_advance_def App_addOperation_eq Let_def
        split: list.splits)

lemma drain_sync [simp]:
  "memoryDB (App_drainOperationQueue app) = memoryDB app"
  "vtsIndex (App_drainOperationQueue app) = vtsIndex app"
  by (simp_all add: App_drainOperationQueue_def Let_def)

lemma run_task_sync [simp]:
  "memoryDB (run_task t app) = memoryDB app"
  "vtsIndex (run_task t app) = vtsIndex app"
  by (cases t; simp add: run_task.simps Let_def split: jsopt.splits)+

lemma tick_sync [simp]:
  "memoryDB (App_tick app) = memoryDB app"
  "vtsIndex (App_tick app) = vtsIndex app"
  by (simp_all add: App_tick_def split: list.splits)

lemma addListener_sync [simp]:
  "memoryDB (fst (App_addListener enum r app)) = memoryDB app"
  "vtsIndex (fst (App_addListener enum r app)) = vtsIndex app"
  by (simp_all add: App_addListener_def Let_def priming_loop Operation_sub_def
        App_addOperation_eq)

lemma listen_sync [simp]:
  "memoryDB (fst (Key_listen enum f r app)) = memoryDB app"
  "vtsIndex (fst (Key_listen enum f r app)) = vtsIndex app"
  by (simp_all add: Key_listen_def)

lemma unlisten_sync [simp]:
  "memoryDB (fst (Key_unlisten r app)) = memoryDB app"
  "vtsIndex (fst (Key_unlisten r app)) = vtsIndex app"
  by (simp_all add: Key_unlisten_def)

lemma sync_inv_deliver_all:
  "sync_inv app \<Longrightarrow> sync_inv (foldl (\<lambda>a val. App_deliverToListeners val a) app vals)"
  by (induction vals arbitrary: app) (simp_all add: sync_inv_deliverToListeners)

lemma sync_inv_process_advance: "sync_inv app \<Longrightarrow> sync_inv (process_advance op response app)"
proof -
  assume inv: "sync_inv app"
  then have loop: "advance_loop (response_vts response) [] app
      = (app, Some ([] @ filter (needs_fetch app) (response_vts response)))"
    by (intro advance_loop_consistent sync_inv_consistent)
  have "sync_inv (process_advance op response app) = sync_inv app"
    by (rule sync_inv_cong)
       (simp_all add: process_advance_def loop Operation_fetch_def App_addOperation_eq Let_def
          split: option.splits)
  with inv show ?thesis by simp
qed

lemma sync_inv_process_fetch: "sync_inv app \<Longrightarrow> sync_inv (process_fetch op response app)"
proof -
  assume inv: "sync_inv app"
  let ?app1 = "foldl (\<lambda>a val. App_deliverToListeners val a) app (response_values response)"
  have "sync_inv (process_fetch op response app) = sync_inv ?app1"
    by (rule sync_inv_cong)
       (simp_all add: process_fetch_def Operation_advance_def App_addOperation_eq Let_def
          split: option.splits)
  with inv show ?thesis by (simp add: sync_inv_deliver_all)
qed

lemma sync_inv_processResponse:
  "sync_inv app \<Longrightarrow> sync_inv (Operation_processResponse op response err app)"
proof -
  assume inv: "sync_inv app"
  have "sync_inv (app\<lparr> acls := response_acls response \<rparr>) = sync_inv app"
    by (rule sync_inv_cong) simp_all
  with inv show ?thesis
    by (simp add: Operation_processResponse_def sync_inv_process_advance sync_inv_process_fetch
          split: kind.splits)
qed

lemma sync_inv_step: "sync_inv app \<Longrightarrow> sync_inv (step app ev)"
proof -
  assume inv: "sync_inv app"
  show ?thesis
  proof (cases ev)
    case (Data val)
    with inv show ?thesis by (simp add: sync_inv_deliverToListeners)
  next
    case (Respond i response err)
    show ?thesis
    proof (cases "find (\<lambda>x. oid x = i) (operationQueue app)")
      case None
      with inv Respond show ?thesis by (simp add: Operation_respond_def)
    next
      case (Some op)
      have "sync_inv (App_removeOperation op (Operation_processResponse op response err app))
          = sync_inv (Operation_processResponse op response err app)"
        by (rule sync_inv_cong) simp_all
      with inv Some Respond show ?thesis
        by (simp add: Operation_respond_def sync_inv_processResponse)
    qed
  next
    case (Listen r f enum)
    have "sync_inv (step app ev) = sync_inv app"
      by (rule sync_inv_cong) (simp_all add: Listen)
    with inv show ?thesis by simp
  next
    case (Unlisten r)
    have "sync_inv (step app ev) = sync_inv app"
      by (rule sync_inv_cong) (simp_all add: Unlisten)
    with inv show ?thesis by simp
  next
    case (Write now stringify d acl_id r)
    have "sync_inv (step app ev) = sync_inv app"
      by (rule sync_inv_cong) (simp_all add: Write)
    with inv show ?thesis by simp
  next
    case (Delete now r)
    have "sync_inv (step app ev) = sync_inv app"
      by (rule sync_inv_cong) (simp_all add: Delete)
    with inv show ?thesis by simp
  next
    case Tick
    have "sync_inv (step app ev) = sync_inv app"
      by (rule sync_inv_cong) (simp_all add: Tick)
    with inv show ?thesis by simp
  next
    case Timer
    have "sync_inv (step app ev) = sync_inv app"
      by (rule sync_inv_cong) (simp_all add: Timer)
    with inv show ?thesis by simp
  next
    case Drain
    have "sync_inv (step app ev) = sync_inv app"
      by (rule sync_inv_cong) (simp_all add: Drain)
    with inv show ?thesis by simp
  qed
qed

lemma sync_inv_foldl: "sync_inv app \<Longrightarrow> sync_inv (foldl step app evs)"
  by (induction evs arbitrary: app) (simp_all add: sync_inv_step)

text \<open>Every state a run reaches has a consistent cache, with no stale entry.\<close>

lemma sync_inv_run: "sync_inv (run ks evs)"
  by (simp add: run_def sync_inv_foldl)

lemma cache_consistent_run: "cache_consistent (run ks evs)"
  by (rule sync_inv_consistent) (rule sync_inv_run)

text \<open>
  The re-delivery of a cached value by the advance branch reaches no listener: in every
  state of a run, \<open>deliverToListeners\<close> on the value cached for a key changes nothing.
\<close>

lemma advance_redelivery_dropped:
  "memoryDB (run ks evs) k = Some val \<Longrightarrow>
   App_deliverToListeners val (run ks evs) = run ks evs"
  using cache_consistent_run by (rule deliver_cached_dropped)

lemma compute_rvtsPrime_expected:
  "compute_rvtsPrime response (Some rv) = Some (expected_rvtsPrime response rv)"
  by (simp add: compute_rvtsPrime_def expected_rvtsPrime_def reduce_max_Some split: option.splits)

text \<open>
  Two runs with a listener on \<open>a.*\<close> and its advance operation in flight.  In the first the
  queue is draining when the response arrives: vts 9 is unknown, so it is in the fetch
  list, but the queue gets no fetch operation, \<open>addOperation\<close> having thrown inside the
  \<open>try\<close>.  In the second the response has maxvts 0, and the fetch operation carries
  rvtsPrime 9.
\<close>

theorem advance_response_no_fetch_when_draining:
  "queueDraining (run example_keys example_draining)
   \<and> map kind (operationQueue (run example_keys example_draining)) = [Sub, Advance]
   \<and> fetch_list (run example_keys example_draining) (advance_response [9] None) = [9]
   \<and> map kind (operationQueue
        (Operation_processResponse (operationQueue (run example_keys example_draining) ! 1)
           (advance_response [9] None) None (run example_keys example_draining)))
       = [Sub, Advance]
   \<and> map kind (operationQueue
        (run example_keys (example_draining @ [Respond 1 (advance_response [9] None) None])))
       = [Sub]
   \<and> \<not> queueDraining (run example_keys example_listening)
   \<and> map (\<lambda>x. (kind x, vts x, rvtsPrime x)) (operationQueue
        (run example_keys (example_listening @ [Respond 1 (advance_response [9] (Some 0)) None])))
       = [(Sub, [], None), (Fetch, [9], Some 9)]"
  by code_simp

text \<open>
  The fetch list and rvtsPrime.  When an advance response is processed without error, on a
  consistent cache (every state of a run has one) and while the queue is not draining:
  the returned vts that are absent from \<open>vtsIndex\<close>, or whose cached value is older, make
  up the fetch list, in the order returned, and no other vts is in it; if the list is not
  empty a fetch operation carrying the pattern's Key object, the list and rvtsPrime is
  appended to the queue; if it is empty, rvtsPrime is recorded in \<open>rvtsDict\<close> for the
  pattern and the timer for the next advance is set.  rvtsPrime is the response's maxvts
  when that is there and not 0, and otherwise the largest of the rvts the operation was
  started with and the returned vts.
\<close>

theorem advance_response_processed:
  "kind op = Advance \<and> keyObj op = Some r \<and> rvts op = Some rv
   \<and> response_error response = None \<and> cache_consistent app \<and> \<not> queueDraining app
   \<longrightarrow>
     (\<forall>v. v \<in> set (fetch_list app response) \<longleftrightarrow>
           v \<in> set (response_vts response)
           \<and> (vtsIndex app v = None
              \<or> (\<exists>k val. vtsIndex app v = Some k \<and> memoryDB app k = Some val
                    \<and> value_vts val < v)))
     \<and> (fetch_list app response \<noteq> [] \<longrightarrow>
          length (operationQueue (Operation_processResponse op response None app))
            = Suc (length (operationQueue app))
          \<and> kind (last (operationQueue (Operation_processResponse op response None app))) = Fetch
          \<and> keyObj (last (operationQueue (Operation_processResponse op response None app)))
              = Some r
          \<and> vts (last (operationQueue (Operation_processResponse op response None app)))
              = fetch_list app response
          \<and> rvtsPrime (last (operationQueue (Operation_processResponse op response None app)))
              = Some (expected_rvtsPrime response rv))
     \<and> (fetch_list app response = [] \<longrightarrow>
          operationQueue (Operation_processResponse op response None app) = operationQueue app
          \<and> rvtsDict (Operation_processResponse op response None app)
              = (rvtsDict app)(''*.'' @ key (keyObjs app r) \<mapsto> expected_rvtsPrime response rv)
          \<and> timers (Operation_processResponse op response None app) = timers app @ [r])"
proof (intro impI)
  assume a: "kind op = Advance \<and> keyObj op = Some r \<and> rvts op = Some rv
   \<and> response_error response = None \<and> cache_consistent app \<and> \<not> queueDraining app"
  then have cons: "cache_consistent app" by simp
  have loop: "advance_loop (response_vts response) [] app = (app, Some (fetch_list app response))"
    using advance_loop_consistent [OF cons, of "response_vts response" "[]"]
    by (simp add: fetch_list_def)
  have mem: "\<forall>v. v \<in> set (fetch_list app response) \<longleftrightarrow>
           v \<in> set (response_vts response)
           \<and> (vtsIndex app v = None
              \<or> (\<exists>k val. vtsIndex app v = Some k \<and> memoryDB app k = Some val
                    \<and> value_vts val < v))"
    by (auto simp: fetch_list_def needs_fetch_def split: option.splits)
  let ?f = "(Operation_new (nextOid app) Fetch (Some r))
              \<lparr> vts := fetch_list app response,
                rvtsPrime := Some (expected_rvtsPrime response rv) \<rparr>"
  have nonempty: "fetch_list app response \<noteq> [] \<Longrightarrow>
      Operation_processResponse op response None app
        = app\<lparr> operationQueue := add_result ?f (app\<lparr> nextOid := Suc (nextOid app) \<rparr>),
               nextOid := Suc (nextOid app) \<rparr>"
    using a
    by (simp add: Operation_processResponse_def process_advance_def loop Let_def
          compute_rvtsPrime_expected Operation_fetch_def App_addOperation_eq)
  have empty: "fetch_list app response = [] \<Longrightarrow>
      Operation_processResponse op response None app
        = app\<lparr> rvtsDict := (rvtsDict app)(''*.'' @ key (keyObjs app r)
                   \<mapsto> expected_rvtsPrime response rv),
               timers := timers app @ [r] \<rparr>"
    using a
    by (simp add: Operation_processResponse_def process_advance_def loop Let_def
          compute_rvtsPrime_expected)
  have fetch: "fetch_list app response \<noteq> [] \<longrightarrow>
          length (operationQueue (Operation_processResponse op response None app))
            = Suc (length (operationQueue app))
          \<and> kind (last (operationQueue (Operation_processResponse op response None app))) = Fetch
          \<and> keyObj (last (operationQueue (Operation_processResponse op response None app)))
              = Some r
          \<and> vts (last (operationQueue (Operation_processResponse op response None app)))
              = fetch_list app response
          \<and> rvtsPrime (last (operationQueue (Operation_processResponse op response None app)))
              = Some (expected_rvtsPrime response rv)"
    by (simp add: nonempty add_result_last)
  have commit: "fetch_list app response = [] \<longrightarrow>
          operationQueue (Operation_processResponse op response None app) = operationQueue app
          \<and> rvtsDict (Operation_processResponse op response None app)
              = (rvtsDict app)(''*.'' @ key (keyObjs app r) \<mapsto> expected_rvtsPrime response rv)
          \<and> timers (Operation_processResponse op response None app) = timers app @ [r]"
    by (simp add: empty)
  from mem fetch commit show "(\<forall>v. v \<in> set (fetch_list app response) \<longleftrightarrow>
           v \<in> set (response_vts response)
           \<and> (vtsIndex app v = None
              \<or> (\<exists>k val. vtsIndex app v = Some k \<and> memoryDB app k = Some val
                    \<and> value_vts val < v)))
     \<and> (fetch_list app response \<noteq> [] \<longrightarrow>
          length (operationQueue (Operation_processResponse op response None app))
            = Suc (length (operationQueue app))
          \<and> kind (last (operationQueue (Operation_processResponse op response None app))) = Fetch
          \<and> keyObj (last (operationQueue (Operation_processResponse op response None app)))
              = Some r
          \<and> vts (last (operationQueue (Operation_processResponse op response None app)))
              = fetch_list app response
          \<and> rvtsPrime (last (operationQueue (Operation_processResponse op response None app)))
              = Some (expected_rvtsPrime response rv))
     \<and> (fetch_list app response = [] \<longrightarrow>
          operationQueue (Operation_processResponse op response None app) = operationQueue app
          \<and> rvtsDict (Operation_processResponse op response None app)
              = (rvtsDict app)(''*.'' @ key (keyObjs app r) \<mapsto> expected_rvtsPrime response rv)
          \<and> timers (Operation_processResponse op response None app) = timers app @ [r])"
    by blast
qed

theorem advance_response_processed_witness:
  "kind (operationQueue (run example_keys example_deliveries) ! 1) = Advance
   \<and> keyObj (operationQueue (run example_keys example_deliveries) ! 1) = Some 0
   \<and> rvts (operationQueue (run example_keys example_deliveries) ! 1) = Some 0
   \<and> \<not> queueDraining (run example_keys example_deliveries)
   \<and> fetch_list (run example_keys example_deliveries) (advance_response [5, 9, 7] (Some 12)) = [9]
   \<and> kind (last (operationQueue
        (Operation_processResponse (operationQueue (run example_keys example_deliveries) ! 1)
           (advance_response [5, 9, 7] (Some 12)) None (run example_keys example_deliveries))))
       = Fetch
   \<and> vts (last (operationQueue
        (Operation_processResponse (operationQueue (run example_keys example_deliveries) ! 1)
           (advance_response [5, 9, 7] (Some 12)) None (run example_keys example_deliveries))))
       = [9]
   \<and> rvtsPrime (last (operationQueue
        (Operation_processResponse (operationQueue (run example_keys example_deliveries) ! 1)
           (advance_response [5, 9, 7] (Some 12)) None (run example_keys example_deliveries))))
       = Some 12"
proof -
  let ?app = "run example_keys example_deliveries"
  let ?op = "operationQueue ?app ! 1"
  let ?response = "advance_response [5, 9, 7] (Some 12)"
  have hyps: "kind ?op = Advance \<and> keyObj ?op = Some 0 \<and> rvts ?op = Some 0
      \<and> \<not> queueDraining ?app"
    by code_simp
  have ok: "response_error ?response = None"
    by (simp add: advance_response_def)
  have fl: "fetch_list ?app ?response = [9]"
    by code_simp
  have rp: "expected_rvtsPrime ?response 0 = 12"
    by (simp add: expected_rvtsPrime_def advance_response_def)
  have cons: "cache_consistent ?app"
    by (rule cache_consistent_run)
  from advance_response_processed [of ?op 0 0 ?response ?app] hyps ok cons
  have "fetch_list ?app ?response \<noteq> [] \<longrightarrow>
          kind (last (operationQueue (Operation_processResponse ?op ?response None ?app))) = Fetch
          \<and> vts (last (operationQueue (Operation_processResponse ?op ?response None ?app)))
              = fetch_list ?app ?response
          \<and> rvtsPrime (last (operationQueue (Operation_processResponse ?op ?response None ?app)))
              = Some (expected_rvtsPrime ?response 0)"
    by blast
  with hyps fl rp show ?thesis by simp
qed

text \<open>
  While the queue is draining, the advance branch enqueues nothing, whatever the fetch
  list: \<open>addOperation\<close> throws and the \<open>catch\<close> of the branch logs the error.
\<close>

lemma advance_response_draining:
  assumes "kind op = Advance" and "cache_consistent app" and "queueDraining app"
    and "fetch_list app response \<noteq> []"
  shows "operationQueue (Operation_processResponse op response err app) = operationQueue app"
    and "rvtsDict (Operation_processResponse op response err app) = rvtsDict app"
proof -
  have loop: "advance_loop (response_vts response) [] app = (app, Some (fetch_list app response))"
    using advance_loop_consistent [OF assms(2), of "response_vts response" "[]"]
    by (simp add: fetch_list_def)
  from assms show "operationQueue (Operation_processResponse op response err app)
      = operationQueue app"
    by (simp add: Operation_processResponse_def process_advance_def loop Let_def
          Operation_fetch_def App_addOperation_def split: option.splits)
  from assms show "rvtsDict (Operation_processResponse op response err app) = rvtsDict app"
    by (simp add: Operation_processResponse_def process_advance_def loop Let_def
          Operation_fetch_def App_addOperation_def split: option.splits)
qed




end
